theory Spec2Isabelle
  imports Complex_Main "HOL-Library.Word" "HOL-Library.Char_ord" "HOL-Library.List_Lexorder"
begin

section \<open>Exceptions\<close>

text \<open>
  The exceptions that can leave the functions modelled here. \<open>LookupError\<close> is
  \<^verbatim>\<open>cconfig::lookup_error\<close> with its message. \<open>BadCast\<close> stands for the
  exceptions of the Boost conversions (\<^verbatim>\<open>bad_lexical_cast\<close>, \<^verbatim>\<open>bad_numeric_cast\<close>):
  they derive from \<^verbatim>\<open>std::bad_cast\<close>, not from \<^verbatim>\<open>cconfig::exception\<close>, so no
  \<^verbatim>\<open>catch(cconfig::lookup_error&)\<close> stops them. \<open>SchemaException\<close> is
  \<^verbatim>\<open>cconfig::schema::exception\<close>. \<open>Undefined\<close> marks a violated precondition of
  an unchecked container access (\<^verbatim>\<open>ptr_vector::operator[]\<close> out of range, a
  dereferenced \<^verbatim>\<open>begin()\<close> of an empty vector): no exception is thrown, so no
  handler sees it.
\<close>

datatype error =
    LookupError string
  | BadCast
  | SchemaException string
  | Undefined

section \<open>The element tree (config\_tree.hpp)\<close>

text \<open>
  An atom holds a \<^verbatim>\<open>boost::variant<bool, long, double, std::string>\<close>. A \<^verbatim>\<open>long\<close>
  is a 64-bit word; a \<^verbatim>\<open>double\<close> is represented by the real number it denotes (no
  property below computes with it). \<open>atom_type\<close> is the \<^verbatim>\<open>std::type_info\<close> of the
  four alternatives.
\<close>

datatype atom_value =
    VBool bool
  | VLong "64 word"
  | VDouble real
  | VString string

datatype atom_type = TBool | TLong | TDouble | TString

fun type :: "atom_value \<Rightarrow> atom_type" where
  "type (VBool _) = TBool"
| "type (VLong _) = TLong"
| "type (VDouble _) = TDouble"
| "type (VString _) = TString"

text \<open>
  A group owns a \<^verbatim>\<open>ptr_map<std::string, element>\<close>, kept here as the list of its
  entries in iteration order; a list owns a \<^verbatim>\<open>ptr_vector<element>\<close>.
\<close>

datatype element =
    Group "(string \<times> element) list"
  | List "element list"
  | Atom atom_value

subsection \<open>Narrowing accessors\<close>

text \<open>
  Each accessor does a \<^verbatim>\<open>dynamic_cast\<close> to a reference, catches \<^verbatim>\<open>std::bad_cast\<close>
  and throws a \<^verbatim>\<open>lookup_error\<close>; the three handlers carry the same message text.
\<close>

fun as_group :: "element \<Rightarrow> error + (string \<times> element) list" where
  "as_group (Group settings) = Inr settings"
| "as_group _ = Inl (LookupError ''Config setting is not a group'')"

fun as_list :: "element \<Rightarrow> error + element list" where
  "as_list (List settings) = Inr settings"
| "as_list _ = Inl (LookupError ''Config setting is not a group'')"

fun as_atom :: "element \<Rightarrow> error + atom_value" where
  "as_atom (Atom v) = Inr v"
| "as_atom _ = Inl (LookupError ''Config setting is not a group'')"

subsection \<open>Container access\<close>

text \<open>
  \<^verbatim>\<open>group::get\<close> searches the map and throws when the key is absent.
  \<^verbatim>\<open>list::get\<close> is \<^verbatim>\<open>settings_[index]\<close>: \<^verbatim>\<open>ptr_vector::operator[]\<close> does not check
  its index (an assertion in debug builds), unlike \<^verbatim>\<open>at()\<close>.
\<close>

definition group_get :: "(string \<times> element) list \<Rightarrow> string \<Rightarrow> error + element" where
  "group_get settings key =
     (case map_of settings key of
        None \<Rightarrow> Inl (LookupError (''Element not found ('' @ key @ '')''))
      | Some e \<Rightarrow> Inr e)"

definition list_get :: "element list \<Rightarrow> nat \<Rightarrow> error + element" where
  "list_get settings index =
     (if index < length settings then Inr (settings ! index) else Inl Undefined)"

section \<open>The path resolver (util::split)\<close>

text \<open>
  A token is a \<^verbatim>\<open>boost::variant<std::string, unsigned int>\<close>.
\<close>

datatype token = Name string | Index nat

text \<open>
  \<^verbatim>\<open>erase_all_copy(s, "]")\<close> drops every closing bracket. \<^verbatim>\<open>boost::algorithm::split\<close>
  with \<^verbatim>\<open>is_any_of(".[")\<close> cuts at every separator and keeps empty pieces (token
  compression is off by default), so a string with n separators has n + 1 pieces.
\<close>

definition erase_all_copy :: "string \<Rightarrow> string" where
  "erase_all_copy s = filter (\<lambda>c. c \<noteq> CHR '']'') s"

fun boost_split :: "string \<Rightarrow> string list" where
  "boost_split [] = [[]]"
| "boost_split (c # cs) =
     (if c \<in> set ''.['' then [] # boost_split cs
      else (case boost_split cs of
              [] \<Rightarrow> [[c]]
            | p # ps \<Rightarrow> (c # p) # ps))"

text \<open>
  The character classes of the two regular expressions: \<^verbatim>\<open>_d\<close> is a digit, \<^verbatim>\<open>_w\<close>
  is a letter, a digit or an underscore. \<^verbatim>\<open>regex_match\<close> matches the whole piece, so
  \<^verbatim>\<open>+_d\<close> and \<^verbatim>\<open>+_w\<close> accept the non-empty pieces made of such characters only.
\<close>

definition is_digit :: "char \<Rightarrow> bool" where
  "is_digit c = (c \<in> set ''0123456789'')"

definition is_word :: "char \<Rightarrow> bool" where
  "is_word c =
     (c \<in> set ''abcdefghijklmnopqrstuvwxyzABCDEFGHIJKLMNOPQRSTUVWXYZ0123456789_'')"

definition rexNumber :: "string \<Rightarrow> bool" where
  "rexNumber t = (t \<noteq> [] \<and> list_all is_digit t)"

definition rexName :: "string \<Rightarrow> bool" where
  "rexName t = (t \<noteq> [] \<and> list_all is_word t)"

text \<open>
  \<^verbatim>\<open>lexical_cast<unsigned int>\<close> on the all-digit pieces that reach it: the decimal
  value, or \<^verbatim>\<open>bad_lexical_cast\<close> when it does not fit 32 bits.
\<close>

definition decimal :: "string \<Rightarrow> nat" where
  "decimal t = foldl (\<lambda>n c. 10 * n + (of_char c - 48)) 0 t"

definition lexical_cast_uint :: "string \<Rightarrow> nat option" where
  "lexical_cast_uint t = (if decimal t < 2 ^ 32 then Some (decimal t) else None)"

text \<open>The body of the loop over the pieces, for the path \<open>s\<close> and one piece \<open>t\<close>.\<close>

definition split_token :: "string \<Rightarrow> string \<Rightarrow> error + token" where
  "split_token s t =
     (if t = [] then
        Inl (LookupError (''Subsequent path separators found in config path ('' @ s @ '')''))
      else if rexNumber t then
        (case lexical_cast_uint t of
           None \<Rightarrow> Inl BadCast
         | Some i \<Rightarrow> Inr (Index i))
      else if rexName t then Inr (Name t)
      else
        Inl (LookupError (''Failed to parse config path ('' @ s @ '') at token '' @ t)))"

fun split_loop :: "string \<Rightarrow> string list \<Rightarrow> error + token list" where
  "split_loop s [] = Inr []"
| "split_loop s (t # ts) =
     (case split_token s t of
        Inl e \<Rightarrow> Inl e
      | Inr tok \<Rightarrow>
          (case split_loop s ts of
             Inl e \<Rightarrow> Inl e
           | Inr result \<Rightarrow> Inr (tok # result)))"

definition split :: "string \<Rightarrow> error + token list" where
  "split s = split_loop s (boost_split (erase_all_copy s))"

text \<open>
  The identifier pattern \<^verbatim>\<open>[A-Za-z_][A-Za-z0-9_]*\<close> in the words of the
  specification, to compare with \<open>rexName\<close>.
\<close>

definition identifier_pattern :: "string \<Rightarrow> bool" where
  "identifier_pattern t =
     (case t of
        [] \<Rightarrow> False
      | c # cs \<Rightarrow> is_word c \<and> \<not> is_digit c \<and> list_all is_word cs)"

section \<open>Path lookup (config\_tree.hpp)\<close>

text \<open>
  \<^verbatim>\<open>element::operator[](size_t)\<close> narrows to a list and indexes it.
  \<^verbatim>\<open>element::operator[](const std::string&)\<close> resolves a key that holds a dot or an
  opening bracket as a path, turning every lookup error of the walk into "Config setting
  not found"; any other key is looked up in the element as a group. The walk,
  \<^verbatim>\<open>recursive_lookup\<close>, applies the visitor to the front token: a name goes back to
  \<^verbatim>\<open>operator[](const std::string&)\<close>, an index to \<^verbatim>\<open>operator[](size_t)\<close>.
\<close>

definition has_separator :: "string \<Rightarrow> bool" where
  "has_separator key = list_ex (\<lambda>c. c \<in> set ''.['') key"

definition subscript_index :: "element \<Rightarrow> nat \<Rightarrow> error + element" where
  "subscript_index e index =
     (case as_list e of
        Inl err \<Rightarrow> Inl err
      | Inr settings \<Rightarrow> list_get settings index)"

function subscript_key :: "element \<Rightarrow> string \<Rightarrow> error + element"
  and recursive_lookup :: "element \<Rightarrow> token list \<Rightarrow> error + element"
where
  "subscript_key e key =
     (if has_separator key then
        (case split key of
           Inl err \<Rightarrow> Inl err
         | Inr tokens \<Rightarrow>
             (case recursive_lookup e tokens of
                Inl (LookupError _) \<Rightarrow>
                  Inl (LookupError (''Config setting not found ('' @ key @ '')''))
              | Inl err \<Rightarrow> Inl err
              | Inr found \<Rightarrow> Inr found))
      else
        (case as_group e of
           Inl err \<Rightarrow> Inl err
         | Inr settings \<Rightarrow> group_get settings key))"
| "recursive_lookup e [] = Inr e"
| "recursive_lookup e (Name s # tokens) =
     (case subscript_key e s of
        Inl err \<Rightarrow> Inl err
      | Inr next \<Rightarrow> recursive_lookup next tokens)"
| "recursive_lookup e (Index i # tokens) =
     (case subscript_index e i of
        Inl err \<Rightarrow> Inl err
      | Inr next \<Rightarrow> recursive_lookup next tokens)"
  by pat_completeness auto

text \<open>
  The two functions call each other; they terminate because the name tokens that
  \<open>split\<close> returns hold no separator, so the second visit of \<open>subscript_key\<close> takes
  the direct branch.
\<close>

definition separator_free :: "token list \<Rightarrow> bool" where
  "separator_free tokens =
     list_all (\<lambda>t. case t of Name s \<Rightarrow> \<not> has_separator s | Index _ \<Rightarrow> True) tokens"

lemma is_word_not_separator: "list_all is_word t \<Longrightarrow> \<not> has_separator t"
  by (induction t) (auto simp: has_separator_def is_word_def)

lemma split_token_separator_free:
  "split_token s t = Inr (Name n) \<Longrightarrow> \<not> has_separator n"
  by (auto simp: split_token_def rexName_def is_word_not_separator split: if_splits option.splits)

lemma split_loop_separator_free:
  "split_loop s ts = Inr tokens \<Longrightarrow> separator_free tokens"
proof (induction ts arbitrary: tokens)
  case Nil
  then show ?case by (simp add: separator_free_def)
next
  case (Cons t ts)
  from Cons.prems obtain tok rest where
    tok: "split_token s t = Inr tok" and rest: "split_loop s ts = Inr rest"
    and tokens: "tokens = tok # rest"
    by (auto split: sum.splits)
  from Cons.IH [OF rest] have "separator_free rest" .
  moreover have "case tok of Name n \<Rightarrow> \<not> has_separator n | Index _ \<Rightarrow> True"
    using tok by (cases tok) (auto dest: split_token_separator_free)
  ultimately show ?case by (simp add: tokens separator_free_def)
qed

lemma split_separator_free: "split key = Inr tokens \<Longrightarrow> separator_free tokens"
  unfolding split_def by (rule split_loop_separator_free)

termination subscript_key
proof (relation "inv_image (less_than <*lex*> less_than)
    (\<lambda>x. case x of
       Inl (e, key) \<Rightarrow> (if has_separator key then 2 else 0, 0)
     | Inr (e, tokens) \<Rightarrow> (if separator_free tokens then 1 else 3, length tokens))", goal_cases)
  case 1
  show ?case by (intro wf_inv_image wf_lex_prod wf_less_than)
next
  case (2 e key tokens)
  then show ?case by (simp add: split_separator_free)
next
  case (3 e s tokens)
  then show ?case by (auto simp: separator_free_def)
next
  case (4 e s tokens x)
  then show ?case by (auto simp: separator_free_def)
next
  case (5 e i tokens x)
  then show ?case by (auto simp: separator_free_def)
qed

declare subscript_key.simps [simp del]

text \<open>
  \<^verbatim>\<open>atom::as<T>\<close> applies \<^verbatim>\<open>atom_detail::visitor<T>\<close> to the variant: an arithmetic
  alternative goes to \<^verbatim>\<open>boost::numeric_cast<T>\<close>, a string to
  \<^verbatim>\<open>boost::lexical_cast<T>\<close>. The Boost conversions to the target type are parameters
  of the model; \<open>None\<close> is their exception. The specialisation for \<^verbatim>\<open>std::string\<close>
  has the same shape, with \<^verbatim>\<open>lexical_cast<std::string>\<close> in the three arithmetic places
  and the identity in the fourth.
\<close>

record 't conversions =
  numeric_cast_bool :: "bool \<Rightarrow> 't option"
  numeric_cast_long :: "64 word \<Rightarrow> 't option"
  numeric_cast_double :: "real \<Rightarrow> 't option"
  lexical_cast :: "string \<Rightarrow> 't option"

definition visitor :: "'t conversions \<Rightarrow> atom_value \<Rightarrow> 't option" where
  "visitor cv v =
     (case v of
        VBool b \<Rightarrow> numeric_cast_bool cv b
      | VLong n \<Rightarrow> numeric_cast_long cv n
      | VDouble d \<Rightarrow> numeric_cast_double cv d
      | VString s \<Rightarrow> lexical_cast cv s)"

definition atom_as :: "'t conversions \<Rightarrow> atom_value \<Rightarrow> error + 't" where
  "atom_as cv v = (case visitor cv v of None \<Rightarrow> Inl BadCast | Some x \<Rightarrow> Inr x)"

definition element_as :: "'t conversions \<Rightarrow> element \<Rightarrow> error + 't" where
  "element_as cv e =
     (case as_atom e of
        Inl err \<Rightarrow> Inl err
      | Inr v \<Rightarrow> atom_as cv v)"

text \<open>
  \<^verbatim>\<open>lookup<T>(path)\<close> splits the path outside its \<^verbatim>\<open>try\<close> block; the walk and the
  conversion are inside, and the handler catches \<^verbatim>\<open>cconfig::lookup_error\<close> only.
  \<^verbatim>\<open>lookup<T>(path, default_value)\<close> wraps it in one more such handler.
\<close>

definition lookup :: "'t conversions \<Rightarrow> element \<Rightarrow> string \<Rightarrow> error + 't" where
  "lookup cv e path =
     (case split path of
        Inl err \<Rightarrow> Inl err
      | Inr tokens \<Rightarrow>
          (case (case recursive_lookup e tokens of
                   Inl err \<Rightarrow> Inl err
                 | Inr found \<Rightarrow> element_as cv found) of
             Inl (LookupError _) \<Rightarrow>
               Inl (LookupError (''Config setting not found ('' @ path @ '')''))
           | Inl err \<Rightarrow> Inl err
           | Inr x \<Rightarrow> Inr x))"

definition lookup_default :: "'t conversions \<Rightarrow> element \<Rightarrow> string \<Rightarrow> 't \<Rightarrow> error + 't" where
  "lookup_default cv e path default_value =
     (case lookup cv e path of
        Inl (LookupError _) \<Rightarrow> Inr default_value
      | Inl err \<Rightarrow> Inl err
      | Inr x \<Rightarrow> Inr x)"

text \<open>
  The conversions for \<^verbatim>\<open>T = long\<close>. \<^verbatim>\<open>numeric_cast<long>\<close> keeps a \<^verbatim>\<open>long\<close>, maps
  a \<^verbatim>\<open>bool\<close> to 0 or 1, and truncates a \<^verbatim>\<open>double\<close> toward zero, failing out of
  range. \<^verbatim>\<open>lexical_cast<long>\<close> reads an optional sign and decimal digits, the whole
  string, and fails on anything else or out of range.
\<close>

definition lexical_cast_long :: "string \<Rightarrow> 64 word option" where
  "lexical_cast_long s =
     (let negative = (s \<noteq> [] \<and> hd s = CHR ''-'');
          digits = (if s \<noteq> [] \<and> hd s \<in> set ''+-'' then tl s else s);
          n = (if negative then - int (decimal digits) else int (decimal digits))
      in if rexNumber digits \<and> - (2 ^ 63) \<le> n \<and> n < 2 ^ 63 then Some (word_of_int n)
         else None)"

definition conversions_long :: "64 word conversions" where
  "conversions_long =
     \<lparr> numeric_cast_bool = (\<lambda>b. Some (if b then 1 else 0)),
       numeric_cast_long = Some,
       numeric_cast_double =
         (\<lambda>d. if d \<le> - (2 ^ 63) - 1 \<or> 2 ^ 63 \<le> d then None
              else Some (word_of_int (if d < 0 then \<lceil>d\<rceil> else \<lfloor>d\<rfloor>))),
       lexical_cast = lexical_cast_long \<rparr>"

text \<open>
  The walk in the words of the specification: a name token needs a group and looks the
  key up, an index token needs a list and looks the position up.
\<close>

datatype walk = Resolved element | MissingKey | MissingIndex | WrongKind

fun spec_walk :: "element \<Rightarrow> token list \<Rightarrow> walk" where
  "spec_walk e [] = Resolved e"
| "spec_walk (Group settings) (Name s # tokens) =
     (case map_of settings s of
        None \<Rightarrow> MissingKey
      | Some child \<Rightarrow> spec_walk child tokens)"
| "spec_walk (List settings) (Index i # tokens) =
     (if i < length settings then spec_walk (settings ! i) tokens else MissingIndex)"
| "spec_walk _ _ = WrongKind"

section \<open>The schema tree (config\_schema.hpp, config\_schema.cpp)\<close>

text \<open>
  An attribute is a \<^verbatim>\<open>boost::variant<long, bool, double, std::string>\<close>.
\<close>

datatype attribute_value =
    AttrLong "64 word"
  | AttrBool bool
  | AttrDouble real
  | AttrString string

text \<open>
  The members \<^verbatim>\<open>name_\<close>, \<^verbatim>\<open>required_\<close>, \<^verbatim>\<open>parent_\<close> and \<^verbatim>\<open>attributes_\<close> of
  \<^verbatim>\<open>schema::node\<close>. The pointer \<^verbatim>\<open>parent_\<close> is used by \<^verbatim>\<open>uri()\<close>
  only, which reads, of every node up the chain, its name and whether it is a list: the
  field holds these pairs, the parent first, and the empty chain is the null pointer.
\<close>

record node =
  node_name :: string
  node_required :: bool
  node_parent :: "(string \<times> bool) list"
  node_attributes :: "string \<rightharpoonup> attribute_value"

text \<open>
  A group keeps its children in a \<^verbatim>\<open>std::map<std::string, node*>\<close>, here the list of
  its entries in iteration order; a list keeps a vector of children, of which validation
  reads the first; an atom carries the type tag of one of the four atom kinds.
\<close>

datatype schema =
    SGroup node "(string \<times> schema) list"
  | SList node "schema list"
  | SAtom node atom_type

fun info :: "schema \<Rightarrow> node" where
  "info (SGroup n _) = n"
| "info (SList n _) = n"
| "info (SAtom n _) = n"

fun is_list :: "schema \<Rightarrow> bool" where
  "is_list (SList _ _) = True"
| "is_list _ = False"

subsection \<open>uri\<close>

fun join :: "string list \<Rightarrow> string \<Rightarrow> string" where
  "join [] sep = []"
| "join [x] sep = x"
| "join (x # y # ys) sep = x @ sep @ join (y # ys) sep"

definition uri_element :: "string \<Rightarrow> bool \<Rightarrow> (string \<times> bool) list \<Rightarrow> string" where
  "uri_element name list parent =
     (if parent = [] then [] else if name = [] then ''unnamed'' else name) @
     (if list then ''[]'' else [])"

fun uri_elements :: "string \<Rightarrow> bool \<Rightarrow> (string \<times> bool) list \<Rightarrow> string list" where
  "uri_elements name list [] = [uri_element name list []]"
| "uri_elements name list ((pname, plist) # up) =
     uri_elements pname plist up @ [uri_element name list ((pname, plist) # up)]"

definition uri :: "schema \<Rightarrow> string" where
  "uri s =
     (if node_parent (info s) = [] then ''/''
      else join (uri_elements (node_name (info s)) (is_list s) (node_parent (info s))) ''/'')"

subsection \<open>Attributes\<close>

definition has_attribute :: "node \<Rightarrow> string \<Rightarrow> bool" where
  "has_attribute n name = (node_attributes n name \<noteq> None)"

text \<open>
  \<^verbatim>\<open>get_attribute<T>\<close> finds the attribute and applies \<^verbatim>\<open>boost::get<T>\<close>, which
  succeeds only when the variant holds a value of exactly the type \<^verbatim>\<open>T\<close>, and throws
  \<^verbatim>\<open>bad_get\<close> otherwise; the parameter \<open>get\<close> is that projection. \<^verbatim>\<open>int\<close> is none of
  the four alternatives, so \<^verbatim>\<open>boost::get<int>\<close> fails on every held value.
\<close>

definition get_attribute ::
  "(attribute_value \<Rightarrow> 'a option) \<Rightarrow> node \<Rightarrow> string \<Rightarrow> error + 'a" where
  "get_attribute get n name =
     (case node_attributes n name of
        None \<Rightarrow> Inl (SchemaException (''Attribute not found ('' @ name @ '')''))
      | Some v \<Rightarrow>
          (case get v of
             Some x \<Rightarrow> Inr x
           | None \<Rightarrow>
               Inl (SchemaException
                 (''Invalid conversion requested for attribute '' @ name @
                  '' (boost::bad_get: failed value get using boost::get)''))))"

definition boost_get_int :: "attribute_value \<Rightarrow> 32 word option" where
  "boost_get_int v =
     (case v of
        AttrLong _ \<Rightarrow> None
      | AttrBool _ \<Rightarrow> None
      | AttrDouble _ \<Rightarrow> None
      | AttrString _ \<Rightarrow> None)"

subsection \<open>Validation\<close>

record validation_result =
  valid :: bool
  error_uri :: string
  error_message :: string

definition failure :: "string \<Rightarrow> string \<Rightarrow> validation_result" where
  "failure location message =
     \<lparr> valid = False, error_uri = location, error_message = message \<rparr>"

definition success :: validation_result where
  "success = \<lparr> valid = True, error_uri = [], error_message = [] \<rparr>"

text \<open>\<^verbatim>\<open>lexical_cast<std::string>\<close> of an unsigned number: its decimal digits.\<close>

fun lexical_cast_string :: "nat \<Rightarrow> string" where
  "lexical_cast_string n =
     (if n < 10 then [char_of (48 + n)]
      else lexical_cast_string (n div 10) @ [char_of (48 + n mod 10)])"

text \<open>
  The second loop of \<^verbatim>\<open>group::validate\<close>, run under \<^verbatim>\<open>strict\<close>: the first key of the
  element that the schema does not declare ends the validation.
\<close>

fun validate_strict ::
  "string \<Rightarrow> (string \<times> schema) list \<Rightarrow> (string \<times> element) list \<Rightarrow> validation_result" where
  "validate_strict location children [] = success"
| "validate_strict location children ((key, _) # settings) =
     (if map_of children key = None then
        failure location
          (''Attribute '' @ [CHR 0x27] @ key @ [CHR 0x27] @
           '' not found in schema (strict validation). This might possibly be a typo.'')
      else validate_strict location children settings)"

definition type_name :: "atom_type \<Rightarrow> string" where
  "type_name t =
     (if t = TString then ''string''
      else if t = TLong then ''integer''
      else if t = TBool then ''bool''
      else if t = TDouble then ''float''
      else [])"

text \<open>
  \<open>validate\<close> has one equation for each of \<^verbatim>\<open>group::validate\<close>, \<^verbatim>\<open>list::validate\<close>
  and \<^verbatim>\<open>atom::validate\<close>. \<open>validate_children\<close> is the loop of the group over its
  declared children, \<open>validate_entries\<close> the loop of the list over the entries of the
  element; both give \<open>Some r\<close> for the \<^verbatim>\<open>return r\<close> that leaves the loop, \<open>None\<close>
  when the loop runs to its end.
\<close>

fun validate :: "schema \<Rightarrow> element \<Rightarrow> bool \<Rightarrow> error + validation_result"
  and validate_children ::
    "string \<Rightarrow> (string \<times> schema) list \<Rightarrow> element \<Rightarrow> bool \<Rightarrow> error + validation_result option"
  and validate_entries ::
    "schema list \<Rightarrow> element list \<Rightarrow> bool \<Rightarrow> error + validation_result option"
where
  "validate (SGroup n children) e strict =
     (case as_group e of
        Inl (LookupError _) \<Rightarrow> Inr (failure (uri (SGroup n children)) ''Group required'')
      | Inl err \<Rightarrow> Inl err
      | Inr g \<Rightarrow>
          (case validate_children (uri (SGroup n children)) children e strict of
             Inl (LookupError _) \<Rightarrow> Inr (failure (uri (SGroup n children)) ''Group required'')
           | Inl err \<Rightarrow> Inl err
           | Inr (Some r) \<Rightarrow> Inr r
           | Inr None \<Rightarrow>
               (if strict then Inr (validate_strict (uri (SGroup n children)) children g)
                else Inr success)))"
| "validate (SList n children) e strict =
     (case as_list e of
        Inl (LookupError _) \<Rightarrow> Inr (failure (uri (SList n children)) ''List required'')
      | Inl err \<Rightarrow> Inl err
      | Inr l \<Rightarrow>
          (case validate_entries children l strict of
             Inl (LookupError _) \<Rightarrow> Inr (failure (uri (SList n children)) ''List required'')
           | Inl err \<Rightarrow> Inl err
           | Inr (Some r) \<Rightarrow> Inr r
           | Inr None \<Rightarrow>
               (if has_attribute n ''min'' then
                  (case get_attribute boost_get_int n ''min'' of
                     Inl err \<Rightarrow> Inl err
                   | Inr m \<Rightarrow>
                       (if length l < unat m then
                          Inr (failure (uri (SList n children))
                            (''List has not enough entries, need at least '' @
                             lexical_cast_string (unat m)))
                        else Inr success))
                else Inr success)))"
| "validate (SAtom n t) e strict =
     (case as_atom e of
        Inl (LookupError _) \<Rightarrow> Inr (failure (uri (SAtom n t)) ''Atom required'')
      | Inl err \<Rightarrow> Inl err
      | Inr a \<Rightarrow>
          (if type a \<noteq> t then
             Inr (failure (uri (SAtom n t)) (''Type mismatch, '' @ type_name t @ '' required''))
           else Inr success))"
| "validate_children location [] e strict = Inr None"
| "validate_children location ((name, child) # children) e strict =
     (case subscript_key e name of
        Inl (LookupError _) \<Rightarrow>
          (if node_required (info child) then
             Inr (Some (failure location
               (''Missing required attribute '' @ [CHR 0x27] @ name @ [CHR 0x27])))
           else validate_children location children e strict)
      | Inl err \<Rightarrow> Inl err
      | Inr c \<Rightarrow>
          (case validate child c strict of
             Inl (LookupError _) \<Rightarrow>
               (if node_required (info child) then
                  Inr (Some (failure location
                    (''Missing required attribute '' @ [CHR 0x27] @ name @ [CHR 0x27])))
                else validate_children location children e strict)
           | Inl err \<Rightarrow> Inl err
           | Inr r \<Rightarrow>
               (if \<not> valid r then Inr (Some r)
                else validate_children location children e strict)))"
| "validate_entries children [] strict = Inr None"
| "validate_entries children (x # l) strict =
     (case children of
        [] \<Rightarrow> Inl Undefined
      | child # _ \<Rightarrow>
          (case validate child x strict of
             Inl err \<Rightarrow> Inl err
           | Inr r \<Rightarrow>
               (if \<not> valid r then Inr (Some r)
                else validate_entries children l strict)))"

section \<open>Element trees that differ in one place\<close>

text \<open>
  \<^verbatim>\<open>group::insert\<close> is \<^verbatim>\<open>ptr_map::insert\<close>: the entry is placed by the order of the
  keys (\<^verbatim>\<open>std::string\<close> compares bytewise, a prefix first), and a key that is already
  there keeps its old value.
\<close>

definition group_insert :: "string \<Rightarrow> element \<Rightarrow> (string \<times> element) list \<Rightarrow> (string \<times> element) list" where
  "group_insert key value settings =
     (if map_of settings key = None then insort_key fst (key, value) settings else settings)"

text \<open>
  The group without the entry of a key, and the group with another value under a key
  (the tree that the parser would have built from the changed text).
\<close>

definition without :: "string \<Rightarrow> (string \<times> element) list \<Rightarrow> (string \<times> element) list" where
  "without key settings = filter (\<lambda>(k, v). k \<noteq> key) settings"

definition with_value :: "string \<Rightarrow> element \<Rightarrow> (string \<times> element) list \<Rightarrow> (string \<times> element) list" where
  "with_value key value settings = map (\<lambda>(k, v). if k = key then (k, value) else (k, v)) settings"

text \<open>
  Schema trees as the schema grammar and \<^verbatim>\<open>std::map\<close> make them: the names of the
  children of a group are identifiers, so they hold no path separator, and differ from
  each other.
\<close>

fun well_formed :: "schema \<Rightarrow> bool" where
  "well_formed (SGroup n children) =
     (distinct (map fst children) \<and>
      list_all (\<lambda>(name, child). \<not> has_separator name \<and> well_formed child) children)"
| "well_formed (SList n children) = list_all well_formed children"
| "well_formed (SAtom n t) = True"

text \<open>
  \<open>replaced S e e' G x x'\<close>: validating \<open>e\<close> against \<open>S\<close> reaches the element \<open>x\<close>
  with the schema node \<open>G\<close>, through children of groups and entries of lists, and \<open>e'\<close>
  is \<open>e\<close> with \<open>x'\<close> in the place of \<open>x\<close>.
\<close>

inductive replaced :: "schema \<Rightarrow> element \<Rightarrow> element \<Rightarrow> schema \<Rightarrow> element \<Rightarrow> element \<Rightarrow> bool" where
  here: "replaced G x x' G x x'"
| in_group:
    "(name, child) \<in> set children \<Longrightarrow> map_of settings name = Some c \<Longrightarrow>
     replaced child c c' G x x' \<Longrightarrow>
     replaced (SGroup n children) (Group settings) (Group (with_value name c' settings)) G x x'"
| in_list:
    "i < length settings \<Longrightarrow> replaced child (settings ! i) c' G x x' \<Longrightarrow>
     replaced (SList n (child # others)) (List settings) (List (settings[i := c'])) G x x'"

text \<open>\<open>accepted\<close>: the validation returns a result, and the result is valid.\<close>

definition accepted :: "schema \<Rightarrow> element \<Rightarrow> bool \<Rightarrow> bool" where
  "accepted S e strict = (case validate S e strict of Inl _ \<Rightarrow> False | Inr r \<Rightarrow> valid r)"

section \<open>Building the schema tree (add\_child)\<close>

text \<open>
  \<^verbatim>\<open>add_child\<close> writes to two objects through pointers, the group and the node that
  it attaches, so the construction is modelled on a store of node objects. An object
  holds the members \<^verbatim>\<open>name_\<close>, \<^verbatim>\<open>required_\<close>, \<^verbatim>\<open>parent_\<close> and \<^verbatim>\<open>attributes_\<close> of
  \<^verbatim>\<open>schema::node\<close> and what its class adds: the map of children of a group, the vector
  of children of a list, the type tag of an atom. A pointer is an address of the store.
\<close>

type_synonym addr = nat

datatype variant =
    GroupNode "string \<rightharpoonup> addr"
  | ListNode "addr list"
  | AtomNode atom_type

record node_obj =
  obj_name :: string
  obj_required :: bool
  obj_parent :: "addr option"
  obj_attributes :: "string \<rightharpoonup> attribute_value"
  obj_variant :: variant

type_synonym store = "addr \<Rightarrow> node_obj"

text \<open>
  \<^verbatim>\<open>group::add_child(name, n, required)\<close>, statement by statement. \<^verbatim>\<open>std::map::insert\<close>
  keeps an entry that is already there. The call is defined on a group object only.
\<close>

definition add_child :: "addr \<Rightarrow> string \<Rightarrow> addr \<Rightarrow> bool \<Rightarrow> store \<Rightarrow> store option" where
  "add_child this name n required h =
     (case obj_variant (h this) of
        GroupNode children \<Rightarrow>
          (let h1 = h(this := (h this)\<lparr> obj_variant :=
                      GroupNode (if children name = None then children(name \<mapsto> n)
                                 else children) \<rparr>);
               h2 = h1(n := (h1 n)\<lparr> obj_name := name \<rparr>);
               h3 = h2(n := (h2 n)\<lparr> obj_parent := Some this \<rparr>)
           in if required \<or> obj_required (h3 n) then
                (let h4 = h3(n := (h3 n)\<lparr> obj_required := True \<rparr>);
                     h5 = h4(this := (h4 this)\<lparr> obj_required := True \<rparr>)
                 in Some h5)
              else Some h3)
      | _ \<Rightarrow> None)"

text \<open>\<^verbatim>\<open>list::add_child(n)\<close>, defined on a list object only.\<close>

definition list_add_child :: "addr \<Rightarrow> addr \<Rightarrow> store \<Rightarrow> store option" where
  "list_add_child this n h =
     (case obj_variant (h this) of
        ListNode children \<Rightarrow>
          (let h1 = h(this := (h this)\<lparr> obj_variant := ListNode (children @ [n]) \<rparr>);
               h2 = h1(n := (h1 n)\<lparr> obj_parent := Some this \<rparr>)
           in Some h2)
      | _ \<Rightarrow> None)"

text \<open>A sequence of calls, as a parser or the generated tree builder issues them.\<close>

datatype call =
    AddChild addr string addr bool
  | ListAddChild addr addr

fun build :: "call list \<Rightarrow> store \<Rightarrow> store option" where
  "build [] h = Some h"
| "build (AddChild this name n required # calls) h =
     (case add_child this name n required h of
        None \<Rightarrow> None
      | Some h' \<Rightarrow> build calls h')"
| "build (ListAddChild this n # calls) h =
     (case list_add_child this n h of
        None \<Rightarrow> None
      | Some h' \<Rightarrow> build calls h')"

text \<open>
  Newly constructed nodes: \<^verbatim>\<open>node()\<close> sets \<^verbatim>\<open>required_\<close> to false and \<^verbatim>\<open>parent_\<close> to
  null, and the containers start empty.
\<close>

definition fresh :: "store \<Rightarrow> bool" where
  "fresh h =
     (\<forall>a. \<not> obj_required (h a) \<and> obj_parent (h a) = None \<and>
          (case obj_variant (h a) of
             GroupNode children \<Rightarrow> children = Map.empty
           | ListNode children \<Rightarrow> children = []
           | AtomNode t \<Rightarrow> True))"

text \<open>
  Bottom-up order, the order of both grammars' actions and of the generated tree builder:
  a group receives a child while neither of the two has a parent yet, so a node has
  all its children before it is attached itself.
\<close>

fun bottom_up :: "call list \<Rightarrow> store \<Rightarrow> bool" where
  "bottom_up [] h = True"
| "bottom_up (AddChild this name n required # calls) h =
     (obj_parent (h this) = None \<and> obj_parent (h n) = None \<and> this \<noteq> n \<and>
      (case add_child this name n required h of
         None \<Rightarrow> False
       | Some h' \<Rightarrow> bottom_up calls h'))"
| "bottom_up (ListAddChild this n # calls) h =
     (case list_add_child this n h of
        None \<Rightarrow> False
      | Some h' \<Rightarrow> bottom_up calls h')"

text \<open>\<open>group_descendant h g d\<close>: in the store \<open>h\<close>, \<open>d\<close> is reached from \<open>g\<close> through
  children of groups.\<close>

inductive group_descendant :: "store \<Rightarrow> addr \<Rightarrow> addr \<Rightarrow> bool" where
  child: "obj_variant (h g) = GroupNode children \<Longrightarrow> children name = Some c \<Longrightarrow>
          group_descendant h g c"
| deeper: "obj_variant (h g) = GroupNode children \<Longrightarrow> children name = Some c \<Longrightarrow>
           group_descendant h c d \<Longrightarrow> group_descendant h g d"

text \<open>The invariant of the construction: every child of a group has a parent pointer,
  and a required child has a required group.\<close>

definition propagated :: "store \<Rightarrow> bool" where
  "propagated h =
     (\<forall>g children name c.
        obj_variant (h g) = GroupNode children \<longrightarrow> children name = Some c \<longrightarrow>
        obj_parent (h c) \<noteq> None \<and> (obj_required (h c) \<longrightarrow> obj_required (h g)))"

section \<open>Properties\<close>

subsection \<open>Narrowing accessors\<close>

text \<open>
  C10. An element that is not of the requested variant makes each of \<open>as_group\<close>,
  \<open>as_list\<close> and \<open>as_atom\<close> throw a lookup error whose message is
  "Config setting is not a group": the text names a group in all three accessors, also
  when a list or an atom was asked for.
\<close>

theorem narrowing_accessors_message:
  "((\<forall>settings. e \<noteq> Group settings) \<longrightarrow>
      as_group e = Inl (LookupError ''Config setting is not a group'')) \<and>
   ((\<forall>settings. e \<noteq> List settings) \<longrightarrow>
      as_list e = Inl (LookupError ''Config setting is not a group'')) \<and>
   ((\<forall>v. e \<noteq> Atom v) \<longrightarrow>
      as_atom e = Inl (LookupError ''Config setting is not a group''))"
  by (cases e) simp_all

theorem narrowing_accessors_message_witness:
  "as_group (Atom (VLong 7)) = Inl (LookupError ''Config setting is not a group'') \<and>
   as_list (Atom (VLong 7)) = Inl (LookupError ''Config setting is not a group'') \<and>
   as_atom (List []) = Inl (LookupError ''Config setting is not a group'') \<and>
   as_atom (Group []) = Inl (LookupError ''Config setting is not a group'')"
  using narrowing_accessors_message [of "Atom (VLong 7)"]
    narrowing_accessors_message [of "List []"]
    narrowing_accessors_message [of "Group []"]
  by simp

subsection \<open>List access\<close>

text \<open>
  C4. \<open>get(index)\<close> on a list is meant to be bounds-checked and to fail with a lookup
  failure out of range. The code indexes the vector unchecked: on the empty list, index 0
  gives no lookup error (and no other exception).
\<close>

theorem list_get_out_of_range_unchecked:
  "list_get [] 0 = Inl Undefined \<and> list_get [] 0 \<noteq> Inl (LookupError msg)"
  by (simp add: list_get_def)

lemma list_get_in_range: "index < length settings \<Longrightarrow> list_get settings index = Inr (settings ! index)"
  by (simp add: list_get_def)

subsection \<open>Path resolver\<close>

lemma split_loop_Inr:
  "split_loop s ts = Inr toks \<longleftrightarrow> list_all2 (\<lambda>t tok. split_token s t = Inr tok) ts toks"
proof (induction ts arbitrary: toks)
  case Nil
  show ?case by auto
next
  case (Cons t ts)
  show ?case
  proof (cases "split_token s t")
    case (Inl e)
    then show ?thesis by (auto simp: list_all2_Cons1)
  next
    case (Inr tok)
    show ?thesis
    proof (cases "split_loop s ts")
      case (Inl e)
      with Inr Cons.IH show ?thesis by (auto simp: list_all2_Cons1)
    next
      case inner: (Inr result)
      with Inr Cons.IH show ?thesis by (auto simp: list_all2_Cons1)
    qed
  qed
qed

lemma split_loop_Inl:
  "split_loop s ts = Inl e \<Longrightarrow> \<exists>t \<in> set ts. split_token s t = Inl e"
  by (induction ts) (auto split: sum.splits)

text \<open>
  C5 (as stated, refuted). The piece \<open>2a\<close> is neither all digits nor an identifier,
  and the resolver accepts it as a name token: \<^verbatim>\<open>+_w\<close> lets a name start with a digit.
\<close>

theorem split_accepts_non_identifier:
  "\<not> rexNumber ''2a'' \<and> \<not> identifier_pattern ''2a'' \<and> split ''2a'' = Inr [Name ''2a'']"
  by (simp add: rexNumber_def rexName_def identifier_pattern_def is_digit_def is_word_def
      split_def erase_all_copy_def split_token_def)

text \<open>
  C5 (amended). Let the pieces of a path be what is left after erasing the closing
  brackets and cutting at every dot and opening bracket, and let no all-digit piece
  exceed 32 bits. Then an empty piece raises the "subsequent path separators" lookup
  error; a non-empty piece is an index token exactly when it is all digits; it is a name
  token exactly when it is made of letters, digits and underscores and is not all digits
  (so it may start with a digit); every other piece raises the "failed to parse" lookup
  error naming the path and the piece. The resolver returns the tokens of all pieces in
  order when every piece gives one, and a lookup error of one of its pieces otherwise.
\<close>

theorem split_classifies_pieces:
  assumes fits: "\<forall>t \<in> set (boost_split (erase_all_copy s)). rexNumber t \<longrightarrow> decimal t < 2 ^ 32"
  shows "(\<forall>t \<in> set (boost_split (erase_all_copy s)).
            split_token s t =
              (if t = [] then
                 Inl (LookupError
                   (''Subsequent path separators found in config path ('' @ s @ '')''))
               else if list_all is_digit t then Inr (Index (decimal t))
               else if list_all is_word t then Inr (Name t)
               else Inl (LookupError
                   (''Failed to parse config path ('' @ s @ '') at token '' @ t)))) \<and>
         (\<forall>toks. split s = Inr toks \<longleftrightarrow>
            list_all2 (\<lambda>t tok. split_token s t = Inr tok) (boost_split (erase_all_copy s)) toks) \<and>
         (\<forall>e. split s = Inl e \<longrightarrow>
            (\<exists>t \<in> set (boost_split (erase_all_copy s)). \<exists>msg.
               split_token s t = Inl e \<and> e = LookupError msg))"
proof (intro conjI ballI allI impI)
  fix t assume t: "t \<in> set (boost_split (erase_all_copy s))"
  with fits have "rexNumber t \<longrightarrow> decimal t < 2 ^ 32" by blast
  then show "split_token s t =
      (if t = [] then
         Inl (LookupError (''Subsequent path separators found in config path ('' @ s @ '')''))
       else if list_all is_digit t then Inr (Index (decimal t))
       else if list_all is_word t then Inr (Name t)
       else Inl (LookupError (''Failed to parse config path ('' @ s @ '') at token '' @ t)))"
    by (simp add: split_token_def rexNumber_def rexName_def lexical_cast_uint_def)
next
  fix toks
  show "split s = Inr toks \<longleftrightarrow>
      list_all2 (\<lambda>t tok. split_token s t = Inr tok) (boost_split (erase_all_copy s)) toks"
    by (simp add: split_def split_loop_Inr)
next
  fix e assume "split s = Inl e"
  then obtain t where t: "t \<in> set (boost_split (erase_all_copy s))" and e: "split_token s t = Inl e"
    unfolding split_def by (blast dest: split_loop_Inl)
  from fits t have "rexNumber t \<longrightarrow> decimal t < 2 ^ 32" by blast
  with e have "\<exists>msg. e = LookupError msg"
    by (auto simp: split_token_def lexical_cast_uint_def split: if_splits)
  with t e show "\<exists>t \<in> set (boost_split (erase_all_copy s)). \<exists>msg.
      split_token s t = Inl e \<and> e = LookupError msg"
    by blast
qed

theorem split_classifies_pieces_witness:
  "boost_split (erase_all_copy ''a.2a[10]'') = [''a'', ''2a'', ''10''] \<and>
   split ''a.2a[10]'' = Inr [Name ''a'', Name ''2a'', Index 10] \<and>
   split_token ''a..b'' [] =
     Inl (LookupError ''Subsequent path separators found in config path (a..b)'') \<and>
   split_token ''a-b'' ''a-b'' =
     Inl (LookupError ''Failed to parse config path (a-b) at token a-b'')"
proof -
  have p: "boost_split (erase_all_copy ''a.2a[10]'') = [''a'', ''2a'', ''10'']"
    by (simp add: erase_all_copy_def)
  have d: "decimal ''10'' = 10"
    by (simp add: decimal_def)
  have f: "\<forall>t \<in> set (boost_split (erase_all_copy ''a.2a[10]'')). rexNumber t \<longrightarrow> decimal t < 2 ^ 32"
    by (simp add: p rexNumber_def is_digit_def d)
  have p2: "boost_split (erase_all_copy ''a..b'') = [''a'', [], ''b'']"
    by (simp add: erase_all_copy_def)
  have f2: "\<forall>t \<in> set (boost_split (erase_all_copy ''a..b'')). rexNumber t \<longrightarrow> decimal t < 2 ^ 32"
    by (simp add: p2 rexNumber_def is_digit_def)
  have p3: "boost_split (erase_all_copy ''a-b'') = [''a-b'']"
    by (simp add: erase_all_copy_def)
  have f3: "\<forall>t \<in> set (boost_split (erase_all_copy ''a-b'')). rexNumber t \<longrightarrow> decimal t < 2 ^ 32"
    by (simp add: p3 rexNumber_def is_digit_def)
  show ?thesis
    using split_classifies_pieces [OF f] split_classifies_pieces [OF f2]
      split_classifies_pieces [OF f3]
    by (simp add: p p2 p3 d is_digit_def is_word_def)
qed

subsection \<open>Path lookup\<close>

lemma recursive_lookup_walk:
  "separator_free tokens \<Longrightarrow>
   (case spec_walk e tokens of
      Resolved x \<Rightarrow> recursive_lookup e tokens = Inr x
    | MissingKey \<Rightarrow> (\<exists>msg. recursive_lookup e tokens = Inl (LookupError msg))
    | MissingIndex \<Rightarrow> recursive_lookup e tokens = Inl Undefined
    | WrongKind \<Rightarrow> (\<exists>msg. recursive_lookup e tokens = Inl (LookupError msg)))"
proof (induction e tokens rule: spec_walk.induct)
  case (1 e)
  show ?case by simp
next
  case (2 settings s tokens)
  from "2.prems" have s: "\<not> has_separator s" and rest: "separator_free tokens"
    by (simp_all add: separator_free_def)
  show ?case
  proof (cases "map_of settings s")
    case None
    then show ?thesis using s by (simp add: subscript_key.simps group_get_def)
  next
    case (Some child)
    with "2.IH" [OF Some rest] s show ?thesis
      by (auto simp: subscript_key.simps group_get_def split: walk.splits)
  qed
next
  case (3 settings i tokens)
  from "3.prems" have rest: "separator_free tokens"
    by (simp add: separator_free_def)
  show ?case
  proof (cases "i < length settings")
    case True
    with "3.IH" [OF True rest] show ?thesis
      by (auto simp: subscript_index_def list_get_def split: walk.splits)
  next
    case False
    then show ?thesis by (simp add: subscript_index_def list_get_def)
  qed
qed (auto simp: separator_free_def subscript_key.simps subscript_index_def split: token.splits)

text \<open>
  C1 (as stated, refuted). A failed coercion of the resolved atom is not turned into
  the "Config setting not found" lookup error: looking the string atom \<open>x\<close> up as a
  \<^verbatim>\<open>long\<close> lets the cast exception reach the caller.
\<close>

theorem lookup_coercion_failure_not_normalized:
  "lookup conversions_long (Group [(''a'', Atom (VString ''x''))]) ''a'' = Inl BadCast \<and>
   lookup conversions_long (Group [(''a'', Atom (VString ''x''))]) ''a'' \<noteq>
     Inl (LookupError ''Config setting not found (a)'')"
  by (simp add: lookup_def split_def erase_all_copy_def split_token_def rexNumber_def
      rexName_def is_digit_def is_word_def subscript_key.simps has_separator_def group_get_def
      element_as_def atom_as_def visitor_def conversions_long_def lexical_cast_long_def)

text \<open>
  C1 (amended). For a path that the resolver accepts: when the walk meets a missing
  group key or a node of the wrong kind, or resolves to a node that is not an atom,
  \<open>lookup\<close> fails with the single lookup error "Config setting not found (p)" naming the
  path; when it resolves to an atom whose coercion fails, the cast exception reaches the
  caller unchanged; when the coercion succeeds its value is returned.
\<close>

theorem lookup_failures:
  assumes "split p = Inr tokens"
  shows "(spec_walk e tokens = MissingKey \<or> spec_walk e tokens = WrongKind \<longrightarrow>
            lookup cv e p = Inl (LookupError (''Config setting not found ('' @ p @ '')''))) \<and>
         (\<forall>x. spec_walk e tokens = Resolved x \<and> (\<forall>v. x \<noteq> Atom v) \<longrightarrow>
            lookup cv e p = Inl (LookupError (''Config setting not found ('' @ p @ '')''))) \<and>
         (\<forall>v. spec_walk e tokens = Resolved (Atom v) \<and> visitor cv v = None \<longrightarrow>
            lookup cv e p = Inl BadCast) \<and>
         (\<forall>v x. spec_walk e tokens = Resolved (Atom v) \<and> visitor cv v = Some x \<longrightarrow>
            lookup cv e p = Inr x)"
proof -
  from assms have free: "separator_free tokens"
    by (rule split_separator_free)
  note walk = recursive_lookup_walk [OF free, of e]
  have a: "spec_walk e tokens = MissingKey \<or> spec_walk e tokens = WrongKind \<longrightarrow>
      lookup cv e p = Inl (LookupError (''Config setting not found ('' @ p @ '')''))"
    using walk assms by (auto simp: lookup_def)
  have b: "\<forall>x. spec_walk e tokens = Resolved x \<and> (\<forall>v. x \<noteq> Atom v) \<longrightarrow>
      lookup cv e p = Inl (LookupError (''Config setting not found ('' @ p @ '')''))"
  proof (intro allI impI)
    fix x assume x: "spec_walk e tokens = Resolved x \<and> (\<forall>v. x \<noteq> Atom v)"
    with walk have "recursive_lookup e tokens = Inr x" by simp
    moreover from x have "as_atom x = Inl (LookupError ''Config setting is not a group'')"
      by (cases x) simp_all
    ultimately show "lookup cv e p = Inl (LookupError (''Config setting not found ('' @ p @ '')''))"
      using assms by (simp add: lookup_def element_as_def)
  qed
  have c: "\<forall>v. spec_walk e tokens = Resolved (Atom v) \<and> visitor cv v = None \<longrightarrow>
      lookup cv e p = Inl BadCast"
    using walk assms by (auto simp: lookup_def element_as_def atom_as_def)
  have d: "\<forall>v x. spec_walk e tokens = Resolved (Atom v) \<and> visitor cv v = Some x \<longrightarrow>
      lookup cv e p = Inr x"
    using walk assms by (auto simp: lookup_def element_as_def atom_as_def)
  from a b c d show ?thesis by blast
qed

theorem lookup_failures_witness:
  "split ''a.b'' = Inr [Name ''a'', Name ''b''] \<and>
   lookup conversions_long (Group [(''a'', Group [])]) ''a.b'' =
     Inl (LookupError ''Config setting not found (a.b)'') \<and>
   lookup conversions_long (Group [(''a'', Atom (VString ''x''))]) ''a.b'' =
     Inl (LookupError ''Config setting not found (a.b)'') \<and>
   lookup conversions_long (Group [(''a'', Group [(''b'', List [])])]) ''a.b'' =
     Inl (LookupError ''Config setting not found (a.b)'') \<and>
   lookup conversions_long (Group [(''a'', Group [(''b'', Atom (VString ''x''))])]) ''a.b'' =
     Inl BadCast \<and>
   lookup conversions_long (Group [(''a'', Group [(''b'', Atom (VString ''42''))])]) ''a.b'' =
     Inr 42"
proof -
  have s: "split ''a.b'' = Inr [Name ''a'', Name ''b'']"
    by (simp add: split_def erase_all_copy_def split_token_def rexNumber_def rexName_def
        is_digit_def is_word_def)
  have x: "visitor conversions_long (VString ''x'') = None"
    by (simp add: visitor_def conversions_long_def lexical_cast_long_def rexNumber_def
        is_digit_def)
  have y: "visitor conversions_long (VString ''42'') = Some 42"
    by (simp add: visitor_def conversions_long_def lexical_cast_long_def rexNumber_def
        is_digit_def decimal_def)
  show ?thesis
    using lookup_failures [OF s, of "Group [(''a'', Group [])]" conversions_long]
      lookup_failures [OF s, of "Group [(''a'', Atom (VString ''x''))]" conversions_long]
      lookup_failures [OF s, of "Group [(''a'', Group [(''b'', List [])])]" conversions_long]
      lookup_failures [OF s, of "Group [(''a'', Group [(''b'', Atom (VString ''x''))])]"
        conversions_long]
      lookup_failures [OF s, of "Group [(''a'', Group [(''b'', Atom (VString ''42''))])]"
        conversions_long]
    by (simp add: s x y)
qed

text \<open>
  C7. \<open>lookup\<close> with a default is meant to return the default for every lookup failure,
  a missing list index among them. An index past the end of a list is read unchecked,
  so no lookup error arises for the handler to swallow: on the empty list \<open>a\<close>, the path
  \<open>a[0]\<close> does not give the default 5.
\<close>

theorem lookup_default_missing_index:
  "lookup_default conversions_long (Group [(''a'', List [])]) ''a[0]'' 5 = Inl Undefined \<and>
   lookup_default conversions_long (Group [(''a'', List [])]) ''a[0]'' 5 \<noteq> Inr 5"
  by (simp add: lookup_default_def lookup_def split_def erase_all_copy_def split_token_def
      rexNumber_def rexName_def is_digit_def is_word_def lexical_cast_uint_def decimal_def
      subscript_key.simps has_separator_def group_get_def subscript_index_def list_get_def)

lemma lookup_default_cases:
  "(lookup cv e p = Inl (LookupError msg) \<longrightarrow> lookup_default cv e p d = Inr d) \<and>
   (lookup cv e p = Inr x \<longrightarrow> lookup_default cv e p d = Inr x) \<and>
   (lookup cv e p = Inl BadCast \<longrightarrow> lookup_default cv e p d = Inl BadCast)"
  by (simp add: lookup_default_def)

subsection \<open>Atom schemas\<close>

text \<open>
  C8. An atom schema with type tag \<open>t\<close> accepts an atom whose runtime type tag is \<open>t\<close>;
  it rejects an atom of any other tag with the message "Type mismatch, K required",
  where K names the expected kind (string, integer, bool or float), and no coercion is
  tried; it rejects an element that is no atom with the message "Atom required". The
  failures are located at the schema node's uri.
\<close>

theorem atom_validate:
  "(\<forall>a. e = Atom a \<and> type a = t \<longrightarrow>
      (\<exists>r. validate (SAtom n t) e strict = Inr r \<and> valid r)) \<and>
   (\<forall>a. e = Atom a \<and> type a \<noteq> t \<longrightarrow>
      validate (SAtom n t) e strict =
        Inr \<lparr> valid = False, error_uri = uri (SAtom n t),
              error_message =
                ''Type mismatch, '' @
                (case t of TString \<Rightarrow> ''string'' | TLong \<Rightarrow> ''integer''
                 | TBool \<Rightarrow> ''bool'' | TDouble \<Rightarrow> ''float'') @
                '' required'' \<rparr>) \<and>
   ((\<forall>a. e \<noteq> Atom a) \<longrightarrow>
      validate (SAtom n t) e strict =
        Inr \<lparr> valid = False, error_uri = uri (SAtom n t),
              error_message = ''Atom required'' \<rparr>)"
proof (intro conjI allI impI)
  fix a assume "e = Atom a \<and> type a = t"
  then show "\<exists>r. validate (SAtom n t) e strict = Inr r \<and> valid r"
    by (simp add: success_def)
next
  fix a assume "e = Atom a \<and> type a \<noteq> t"
  then show "validate (SAtom n t) e strict =
      Inr \<lparr> valid = False, error_uri = uri (SAtom n t),
            error_message =
              ''Type mismatch, '' @
              (case t of TString \<Rightarrow> ''string'' | TLong \<Rightarrow> ''integer''
               | TBool \<Rightarrow> ''bool'' | TDouble \<Rightarrow> ''float'') @
              '' required'' \<rparr>"
    by (cases t) (simp_all add: failure_def type_name_def)
next
  assume "\<forall>a. e \<noteq> Atom a"
  then show "validate (SAtom n t) e strict =
      Inr \<lparr> valid = False, error_uri = uri (SAtom n t), error_message = ''Atom required'' \<rparr>"
    by (cases e) (simp_all add: failure_def)
qed

theorem atom_validate_witness:
  "(\<exists>r. validate
      (SAtom \<lparr> node_name = ''port'', node_required = True, node_parent = [([], False)],
               node_attributes = Map.empty \<rparr> TLong)
      (Atom (VLong 80)) True = Inr r \<and> valid r) \<and>
   validate
     (SAtom \<lparr> node_name = ''ratio'', node_required = True, node_parent = [([], False)],
              node_attributes = Map.empty \<rparr> TDouble)
     (Atom (VLong 1)) True =
     Inr \<lparr> valid = False, error_uri = ''/ratio'',
           error_message = ''Type mismatch, float required'' \<rparr> \<and>
   validate
     (SAtom \<lparr> node_name = ''ratio'', node_required = True, node_parent = [([], False)],
              node_attributes = Map.empty \<rparr> TDouble)
     (List []) True =
     Inr \<lparr> valid = False, error_uri = ''/ratio'', error_message = ''Atom required'' \<rparr>"
  using atom_validate
      [of "Atom (VLong 80)" TLong
        "\<lparr> node_name = ''port'', node_required = True, node_parent = [([], False)],
           node_attributes = Map.empty \<rparr>" True]
    atom_validate
      [of "Atom (VLong 1)" TDouble
        "\<lparr> node_name = ''ratio'', node_required = True, node_parent = [([], False)],
           node_attributes = Map.empty \<rparr>" True]
    atom_validate
      [of "List []" TDouble
        "\<lparr> node_name = ''ratio'', node_required = True, node_parent = [([], False)],
           node_attributes = Map.empty \<rparr>" True]
  by (simp add: uri_def uri_element_def)

subsection \<open>The min attribute of a list schema\<close>

text \<open>
  C3. A list schema with the attribute \<open>min = 2\<close> is meant to reject a one-element list
  and to accept a two-element list of the child's kind, always with a structured result.
  The schema parser stores the attribute as a \<^verbatim>\<open>long\<close>; \<^verbatim>\<open>list::validate\<close> reads it
  with \<^verbatim>\<open>get_attribute<int>\<close>, which throws a schema exception whenever the attribute is
  present: both validations end in that exception.
\<close>

theorem list_min_attribute_throws:
  "validate
     (SList \<lparr> node_name = ''ports'', node_required = False, node_parent = [([], False)],
              node_attributes = [''min'' \<mapsto> AttrLong 2] \<rparr>
        [SAtom \<lparr> node_name = [], node_required = False,
                 node_parent = [(''ports'', True), ([], False)],
                 node_attributes = Map.empty \<rparr> TLong])
     (List [Atom (VLong 80)]) False =
     Inl (SchemaException
       ''Invalid conversion requested for attribute min (boost::bad_get: failed value get using boost::get)'') \<and>
   validate
     (SList \<lparr> node_name = ''ports'', node_required = False, node_parent = [([], False)],
              node_attributes = [''min'' \<mapsto> AttrLong 2] \<rparr>
        [SAtom \<lparr> node_name = [], node_required = False,
                 node_parent = [(''ports'', True), ([], False)],
                 node_attributes = Map.empty \<rparr> TLong])
     (List [Atom (VLong 80), Atom (VLong 443)]) False =
     Inl (SchemaException
       ''Invalid conversion requested for attribute min (boost::bad_get: failed value get using boost::get)'')"
  by (simp add: success_def has_attribute_def get_attribute_def boost_get_int_def)

lemma list_min_attribute_always_throws:
  assumes "has_attribute n ''min''"
    and "validate_entries children l strict = Inr None"
  shows "\<exists>msg. validate (SList n children) (List l) strict = Inl (SchemaException msg)"
  using assms
  by (auto simp: has_attribute_def get_attribute_def boost_get_int_def
      split: attribute_value.splits)

subsection \<open>Validation of a changed tree\<close>

lemma validate_not_lookup_error: "validate S e strict \<noteq> Inl (LookupError msg)"
  by (cases S) (auto simp: get_attribute_def split: sum.splits error.splits option.splits if_splits)

lemma subscript_key_group:
  "\<not> has_separator name \<Longrightarrow> subscript_key (Group settings) name = group_get settings name"
  by (simp add: subscript_key.simps)

lemma validate_children_append:
  "validate_children loc (xs @ ys) e strict =
     (case validate_children loc xs e strict of
        Inr None \<Rightarrow> validate_children loc ys e strict
      | other \<Rightarrow> other)"
proof (induction xs)
  case Nil
  show ?case by simp
next
  case (Cons x xs)
  obtain name child where x: "x = (name, child)" by (cases x)
  show ?case
    unfolding x using Cons.IH
    by (auto split: sum.splits error.splits option.splits)
qed

lemma validate_children_cong:
  "(\<And>name child. (name, child) \<in> set children \<Longrightarrow> subscript_key e name = subscript_key e' name) \<Longrightarrow>
   validate_children loc children e strict = validate_children loc children e' strict"
proof (induction children)
  case Nil
  show ?case by simp
next
  case (Cons x xs)
  obtain name child where x: "x = (name, child)" by (cases x)
  have same: "subscript_key e name = subscript_key e' name"
    using Cons.prems [of name child] by (simp add: x)
  have rest: "validate_children loc xs e strict = validate_children loc xs e' strict"
  proof (rule Cons.IH)
    fix name' child' assume "(name', child') \<in> set xs"
    then show "subscript_key e name' = subscript_key e' name'"
      using Cons.prems [of name' child'] by simp
  qed
  show ?case
    unfolding x validate_children.simps same rest by (rule refl)
qed

lemma validate_entries_append:
  "validate_entries children (xs @ ys) strict =
     (case validate_entries children xs strict of
        Inr None \<Rightarrow> validate_entries children ys strict
      | other \<Rightarrow> other)"
proof (induction xs)
  case Nil
  show ?case by simp
next
  case (Cons x xs)
  then show ?case
    by (auto split: sum.splits list.splits option.splits)
qed

lemma map_of_with_value:
  "map_of (with_value key value settings) k =
     (if k = key then map_option (\<lambda>_. value) (map_of settings key) else map_of settings k)"
  by (induction settings) (auto simp: with_value_def)

lemma keys_with_value: "map fst (with_value key value settings) = map fst settings"
  by (induction settings) (auto simp: with_value_def)

lemma validate_strict_keys:
  "map fst settings = map fst settings' \<Longrightarrow>
   validate_strict loc children settings = validate_strict loc children settings'"
proof (induction settings arbitrary: settings')
  case Nil
  then show ?case by simp
next
  case (Cons x xs)
  then obtain y ys where s: "settings' = y # ys" by (cases settings') auto
  with Cons.prems have "fst x = fst y" and "map fst xs = map fst ys" by simp_all
  with Cons.IH [of ys] show ?case
    unfolding s by (cases x, cases y) simp
qed

lemma validate_children_Some_invalid:
  "validate_children loc children e strict = Inr (Some r) \<Longrightarrow> \<not> valid r"
proof (induction children)
  case Nil
  then show ?case by simp
next
  case (Cons x xs)
  obtain name child where x: "x = (name, child)" by (cases x)
  from Cons.prems Cons.IH show ?case
    unfolding x
    by (auto simp: failure_def split: sum.splits error.splits if_splits)
qed

lemma validate_entries_Some_invalid:
  "validate_entries children l strict = Inr (Some r) \<Longrightarrow> \<not> valid r"
proof (induction l)
  case Nil
  then show ?case by simp
next
  case (Cons x xs)
  from Cons.prems Cons.IH show ?case
    by (auto split: sum.splits list.splits if_splits)
qed

lemma accepted_group:
  "accepted (SGroup n children) (Group settings) strict \<longleftrightarrow>
     validate_children (uri (SGroup n children)) children (Group settings) strict = Inr None \<and>
     (strict \<longrightarrow> valid (validate_strict (uri (SGroup n children)) children settings))"
proof (cases "validate_children (uri (SGroup n children)) children (Group settings) strict")
  case (Inl err)
  then show ?thesis
    by (cases err) (simp_all add: accepted_def failure_def)
next
  case (Inr result)
  show ?thesis
  proof (cases result)
    case None
    with Inr show ?thesis by (simp add: accepted_def success_def)
  next
    case (Some r)
    with Inr validate_children_Some_invalid [of _ children _ strict r] show ?thesis
      by (simp add: accepted_def)
  qed
qed

lemma get_attribute_int_fails:
  "has_attribute n name \<Longrightarrow> \<exists>msg. get_attribute boost_get_int n name = Inl (SchemaException msg)"
  by (auto simp: has_attribute_def get_attribute_def boost_get_int_def
      split: attribute_value.splits)

lemma accepted_list:
  "accepted (SList n children) (List l) strict \<longleftrightarrow>
     validate_entries children l strict = Inr None \<and> \<not> has_attribute n ''min''"
proof (cases "validate_entries children l strict")
  case (Inl err)
  then show ?thesis
    by (cases err) (simp_all add: accepted_def failure_def)
next
  case (Inr result)
  show ?thesis
  proof (cases result)
    case None
    show ?thesis
    proof (cases "has_attribute n ''min''")
      case True
      from get_attribute_int_fails [OF True] obtain msg where
        "get_attribute boost_get_int n ''min'' = Inl (SchemaException msg)" ..
      with Inr None True show ?thesis by (simp add: accepted_def)
    next
      case False
      with Inr None show ?thesis by (simp add: accepted_def success_def)
    qed
  next
    case (Some r)
    with Inr validate_entries_Some_invalid [of children l strict r] show ?thesis
      by (simp add: accepted_def)
  qed
qed

lemma subscript_key_same:
  "\<not> has_separator name \<Longrightarrow> map_of settings' name = map_of settings name \<Longrightarrow>
   subscript_key (Group settings') name = subscript_key (Group settings) name"
  by (simp add: subscript_key_group group_get_def)

lemma validate_children_same:
  assumes plain: "list_all (\<lambda>(name, child). \<not> has_separator name) children"
    and same: "\<And>name. name \<in> fst ` set children \<Longrightarrow> map_of settings' name = map_of settings name"
  shows "validate_children loc children (Group settings') strict =
         validate_children loc children (Group settings) strict"
proof (rule validate_children_cong)
  fix name child assume m: "(name, child) \<in> set children"
  with plain have "\<not> has_separator name"
    by (auto simp: list_all_iff)
  moreover from m have "name \<in> fst ` set children"
    by force
  ultimately show "subscript_key (Group settings') name = subscript_key (Group settings) name"
    by (intro subscript_key_same same)
qed

lemma validate_children_None_parts:
  assumes "validate_children loc (xs @ y # ys) e strict = Inr None"
  shows "validate_children loc xs e strict = Inr None \<and>
         validate_children loc [y] e strict = Inr None \<and>
         validate_children loc ys e strict = Inr None"
proof -
  have eq: "xs @ y # ys = xs @ ([y] @ ys)" by simp
  have a: "(case validate_children loc xs e strict of
              Inr None \<Rightarrow>
                (case validate_children loc [y] e strict of
                   Inr None \<Rightarrow> validate_children loc ys e strict
                 | other \<Rightarrow> other)
            | other \<Rightarrow> other) = Inr None"
    using assms unfolding eq validate_children_append [of loc xs]
      validate_children_append [of loc "[y]"] .
  then have x: "validate_children loc xs e strict = Inr None"
    by (cases "validate_children loc xs e strict") (auto split: option.splits)
  with a have b: "(case validate_children loc [y] e strict of
                     Inr None \<Rightarrow> validate_children loc ys e strict
                   | other \<Rightarrow> other) = Inr None"
    by (simp only: sum.case option.case)
  then have y: "validate_children loc [y] e strict = Inr None"
    by (cases "validate_children loc [y] e strict") (auto split: option.splits)
  with b have "validate_children loc ys e strict = Inr None"
    by (simp only: sum.case option.case)
  with x y show ?thesis by blast
qed

lemma validate_children_middle:
  assumes "validate_children loc xs e strict = Inr None"
    and "validate_children loc ys e strict = Inr None"
  shows "validate_children loc (xs @ y # ys) e strict =
           (case validate_children loc [y] e strict of
              Inr None \<Rightarrow> Inr None
            | other \<Rightarrow> other)"
proof -
  have eq: "xs @ y # ys = xs @ ([y] @ ys)" by simp
  have "validate_children loc (xs @ y # ys) e strict =
      (case validate_children loc [y] e strict of
         Inr None \<Rightarrow> validate_children loc ys e strict
       | other \<Rightarrow> other)"
    unfolding eq validate_children_append [of loc xs] validate_children_append [of loc "[y]"]
    by (simp only: assms(1) sum.case option.case)
  also have "\<dots> = (case validate_children loc [y] e strict of
                      Inr None \<Rightarrow> Inr None
                    | other \<Rightarrow> other)"
    by (cases "validate_children loc [y] e strict")
      (auto simp only: assms(2) sum.case option.case split: option.splits)
  finally show ?thesis .
qed

lemma group_loop_changed:
  assumes d: "distinct (map fst children)"
    and plain: "list_all (\<lambda>(name, child). \<not> has_separator name) children"
    and m: "(name, child) \<in> set children"
    and same: "\<And>k. k \<noteq> name \<Longrightarrow> map_of settings' k = map_of settings k"
    and orig: "validate_children loc children (Group settings) strict = Inr None"
  shows "validate_children loc children (Group settings') strict =
           (case validate_children loc [(name, child)] (Group settings') strict of
              Inr None \<Rightarrow> Inr None
            | other \<Rightarrow> other) \<and>
         validate_children loc [(name, child)] (Group settings) strict = Inr None"
proof -
  from m obtain before after where c: "children = before @ (name, child) # after"
    by (auto dest: split_list)
  from d c have nb: "name \<notin> fst ` set before" and na: "name \<notin> fst ` set after"
    by auto
  from plain c have pb: "list_all (\<lambda>(name, child). \<not> has_separator name) before"
    and pa: "list_all (\<lambda>(name, child). \<not> has_separator name) after"
    by simp_all
  have parts: "validate_children loc before (Group settings) strict = Inr None \<and>
      validate_children loc [(name, child)] (Group settings) strict = Inr None \<and>
      validate_children loc after (Group settings) strict = Inr None"
    using orig unfolding c by (rule validate_children_None_parts)
  have "validate_children loc before (Group settings') strict =
      validate_children loc before (Group settings) strict"
  proof (rule validate_children_same [OF pb])
    fix k assume "k \<in> fst ` set before"
    with nb have "k \<noteq> name" by auto
    then show "map_of settings' k = map_of settings k" by (rule same)
  qed
  with parts have b: "validate_children loc before (Group settings') strict = Inr None"
    by simp
  have "validate_children loc after (Group settings') strict =
      validate_children loc after (Group settings) strict"
  proof (rule validate_children_same [OF pa])
    fix k assume "k \<in> fst ` set after"
    with na have "k \<noteq> name" by auto
    then show "map_of settings' k = map_of settings k" by (rule same)
  qed
  with parts have a: "validate_children loc after (Group settings') strict = Inr None"
    by simp
  from validate_children_middle [OF b a, of "(name, child)"] parts show ?thesis
    unfolding c by blast
qed

lemma validate_entries_None_parts:
  assumes "validate_entries children (xs @ y # ys) strict = Inr None"
  shows "validate_entries children xs strict = Inr None \<and>
         validate_entries children [y] strict = Inr None \<and>
         validate_entries children ys strict = Inr None"
proof -
  have eq: "xs @ y # ys = xs @ ([y] @ ys)" by simp
  have a: "(case validate_entries children xs strict of
              Inr None \<Rightarrow>
                (case validate_entries children [y] strict of
                   Inr None \<Rightarrow> validate_entries children ys strict
                 | other \<Rightarrow> other)
            | other \<Rightarrow> other) = Inr None"
    using assms unfolding eq validate_entries_append [of children xs]
      validate_entries_append [of children "[y]"] .
  then have x: "validate_entries children xs strict = Inr None"
    by (cases "validate_entries children xs strict") (auto split: option.splits)
  with a have b: "(case validate_entries children [y] strict of
                     Inr None \<Rightarrow> validate_entries children ys strict
                   | other \<Rightarrow> other) = Inr None"
    by (simp only: sum.case option.case)
  then have y: "validate_entries children [y] strict = Inr None"
    by (cases "validate_entries children [y] strict") (auto split: option.splits)
  with b have "validate_entries children ys strict = Inr None"
    by (simp only: sum.case option.case)
  with x y show ?thesis by blast
qed

lemma validate_entries_middle:
  assumes "validate_entries children xs strict = Inr None"
    and "validate_entries children ys strict = Inr None"
  shows "validate_entries children (xs @ y # ys) strict =
           (case validate_entries children [y] strict of
              Inr None \<Rightarrow> Inr None
            | other \<Rightarrow> other)"
proof -
  have eq: "xs @ y # ys = xs @ ([y] @ ys)" by simp
  have "validate_entries children (xs @ y # ys) strict =
      (case validate_entries children [y] strict of
         Inr None \<Rightarrow> validate_entries children ys strict
       | other \<Rightarrow> other)"
    unfolding eq validate_entries_append [of children xs] validate_entries_append [of children "[y]"]
    by (simp only: assms(1) sum.case option.case)
  also have "\<dots> = (case validate_entries children [y] strict of
                      Inr None \<Rightarrow> Inr None
                    | other \<Rightarrow> other)"
    by (cases "validate_entries children [y] strict")
      (auto simp only: assms(2) sum.case option.case split: option.splits)
  finally show ?thesis .
qed

lemma list_loop_changed:
  assumes i: "i < length l"
    and orig: "validate_entries children l strict = Inr None"
  shows "validate_entries children (l[i := c']) strict =
           (case validate_entries children [c'] strict of
              Inr None \<Rightarrow> Inr None
            | other \<Rightarrow> other) \<and>
         validate_entries children [l ! i] strict = Inr None"
proof -
  from i have l: "l = take i l @ (l ! i) # drop (Suc i) l"
    by (rule id_take_nth_drop)
  from i have l': "l[i := c'] = take i l @ c' # drop (Suc i) l"
    by (rule upd_conv_take_nth_drop)
  have "validate_entries children (take i l @ (l ! i) # drop (Suc i) l) strict = Inr None"
    using orig l by simp
  then have parts: "validate_entries children (take i l) strict = Inr None \<and>
      validate_entries children [l ! i] strict = Inr None \<and>
      validate_entries children (drop (Suc i) l) strict = Inr None"
    by (rule validate_entries_None_parts)
  then have b: "validate_entries children (take i l) strict = Inr None"
    and a: "validate_entries children (drop (Suc i) l) strict = Inr None"
    by blast+
  from validate_entries_middle [OF b a, of c'] parts show ?thesis
    unfolding l' by blast
qed

lemma child_step_found:
  assumes "\<not> has_separator name" and "map_of settings name = Some c"
  shows "validate_children loc [(name, child)] (Group settings) strict =
           (case validate child c strict of
              Inl err \<Rightarrow> Inl err
            | Inr r \<Rightarrow> if valid r then Inr None else Inr (Some r))"
proof (cases "validate child c strict")
  case (Inl err)
  have "\<And>m. err \<noteq> LookupError m"
    using Inl validate_not_lookup_error [of child c strict] by auto
  with Inl assms show ?thesis
    by (cases err) (auto simp: subscript_key_group group_get_def)
next
  case (Inr r)
  with assms show ?thesis
    by (simp add: subscript_key_group group_get_def)
qed

lemma child_step_missing:
  assumes "\<not> has_separator name" and "map_of settings name = None"
  shows "validate_children loc [(name, child)] (Group settings) strict =
           (if node_required (info child) then
              Inr (Some (failure loc
                (''Missing required attribute '' @ [CHR 0x27] @ name @ [CHR 0x27])))
            else Inr None)"
  using assms by (simp add: subscript_key_group group_get_def)

lemma entry_step:
  "validate_entries (child # others) [x] strict =
     (case validate child x strict of
        Inl err \<Rightarrow> Inl err
      | Inr r \<Rightarrow> if valid r then Inr None else Inr (Some r))"
  by (simp split: sum.splits)

lemma step_accepted:
  "(case validate child c strict of
      Inl err \<Rightarrow> Inl err
    | Inr r \<Rightarrow> if valid r then Inr None else Inr (Some r)) = Inr None \<longleftrightarrow>
   accepted child c strict"
  by (auto simp: accepted_def split: sum.splits if_splits)

lemma well_formed_group:
  assumes "well_formed (SGroup n children)"
  shows "distinct (map fst children)"
    and "list_all (\<lambda>(name, child). \<not> has_separator name) children"
    and "(name, child) \<in> set children \<Longrightarrow> well_formed child"
    and "(name, child) \<in> set children \<Longrightarrow> \<not> has_separator name"
  using assms by (auto simp: list_all_iff)

lemma rejection_propagates:
  assumes "replaced S e e' G x x'"
    and "well_formed S"
    and "accepted S e strict"
    and "validate G x' strict = Inr r"
    and "\<not> valid r"
  shows "validate S e' strict = Inr r"
  using assms
proof (induction rule: replaced.induct)
  case (here G x x')
  then show ?case by simp
next
  case (in_group name child children settings c c' G x x' n)
  let ?loc = "uri (SGroup n children)"
  let ?settings' = "with_value name c' settings"
  note wf = well_formed_group [OF in_group.prems(1)]
  have plain: "\<not> has_separator name" using wf(4) in_group.hyps(1) .
  have orig: "validate_children ?loc children (Group settings) strict = Inr None"
    using in_group.prems(2) by (simp add: accepted_group)
  have loop:
    "validate_children ?loc children (Group ?settings') strict =
       (case validate_children ?loc [(name, child)] (Group ?settings') strict of
          Inr None \<Rightarrow> Inr None
        | other \<Rightarrow> other) \<and>
     validate_children ?loc [(name, child)] (Group settings) strict = Inr None"
    by (rule group_loop_changed [OF wf(1) wf(2) in_group.hyps(1) _ orig])
      (simp add: map_of_with_value)
  from loop have old_step: "validate_children ?loc [(name, child)] (Group settings) strict = Inr None"
    by blast
  have "accepted child c strict"
    using old_step
    unfolding child_step_found [OF plain in_group.hyps(2), of ?loc child strict] step_accepted .
  then have new: "validate child c' strict = Inr r"
    using in_group.IH wf(3) in_group.hyps(1) in_group.prems(3,4) by blast
  have found: "map_of ?settings' name = Some c'"
    using in_group.hyps(2) by (simp add: map_of_with_value)
  have "validate_children ?loc [(name, child)] (Group ?settings') strict = Inr (Some r)"
    unfolding child_step_found [OF plain found, of ?loc child strict] new
    using in_group.prems(4) by simp
  with loop have "validate_children ?loc children (Group ?settings') strict = Inr (Some r)"
    by (simp only: sum.case option.case)
  then show ?case by simp
next
  case (in_list i settings child c' G x x' n others)
  have wfc: "well_formed child" using in_list.prems(1) by simp
  have orig: "validate_entries (child # others) settings strict = Inr None"
    using in_list.prems(2) by (simp add: accepted_list)
  note loop = list_loop_changed [OF in_list.hyps(1) orig, of c']
  from loop have old_step: "validate_entries (child # others) [settings ! i] strict = Inr None"
    by blast
  have "accepted child (settings ! i) strict"
    using old_step unfolding entry_step step_accepted .
  then have new: "validate child c' strict = Inr r"
    using in_list.IH wfc in_list.prems(3,4) by blast
  have "validate_entries (child # others) [c'] strict = Inr (Some r)"
    unfolding entry_step new using in_list.prems(4) by simp
  with loop have "validate_entries (child # others) (settings[i := c']) strict = Inr (Some r)"
    by (simp only: sum.case option.case)
  then show ?case by simp
qed

lemma acceptance_preserved:
  assumes "replaced S e e' G x x'"
    and "well_formed S"
    and "accepted S e strict"
    and "accepted G x' strict"
  shows "accepted S e' strict"
  using assms
proof (induction rule: replaced.induct)
  case (here G x x')
  then show ?case by simp
next
  case (in_group name child children settings c c' G x x' n)
  let ?loc = "uri (SGroup n children)"
  let ?settings' = "with_value name c' settings"
  note wf = well_formed_group [OF in_group.prems(1)]
  have plain: "\<not> has_separator name" using wf(4) in_group.hyps(1) .
  have orig: "validate_children ?loc children (Group settings) strict = Inr None"
    and orig_strict: "strict \<longrightarrow> valid (validate_strict ?loc children settings)"
    using in_group.prems(2) by (simp_all add: accepted_group)
  have loop:
    "validate_children ?loc children (Group ?settings') strict =
       (case validate_children ?loc [(name, child)] (Group ?settings') strict of
          Inr None \<Rightarrow> Inr None
        | other \<Rightarrow> other) \<and>
     validate_children ?loc [(name, child)] (Group settings) strict = Inr None"
    by (rule group_loop_changed [OF wf(1) wf(2) in_group.hyps(1) _ orig])
      (simp add: map_of_with_value)
  from loop have old_step: "validate_children ?loc [(name, child)] (Group settings) strict = Inr None"
    by blast
  have "accepted child c strict"
    using old_step
    unfolding child_step_found [OF plain in_group.hyps(2), of ?loc child strict] step_accepted .
  then have new: "accepted child c' strict"
    using in_group.IH wf(3) in_group.hyps(1) in_group.prems(3) by blast
  have found: "map_of ?settings' name = Some c'"
    using in_group.hyps(2) by (simp add: map_of_with_value)
  have "validate_children ?loc [(name, child)] (Group ?settings') strict = Inr None"
    unfolding child_step_found [OF plain found, of ?loc child strict] step_accepted
    by (rule new)
  with loop have "validate_children ?loc children (Group ?settings') strict = Inr None"
    by (simp only: sum.case option.case)
  moreover have "validate_strict ?loc children ?settings' = validate_strict ?loc children settings"
    by (rule validate_strict_keys) (rule keys_with_value)
  ultimately show ?case
    using orig_strict by (simp add: accepted_group)
next
  case (in_list i settings child c' G x x' n others)
  have wfc: "well_formed child" using in_list.prems(1) by simp
  have orig: "validate_entries (child # others) settings strict = Inr None"
    and no_min: "\<not> has_attribute n ''min''"
    using in_list.prems(2) by (simp_all add: accepted_list)
  note loop = list_loop_changed [OF in_list.hyps(1) orig, of c']
  from loop have old_step: "validate_entries (child # others) [settings ! i] strict = Inr None"
    by blast
  have "accepted child (settings ! i) strict"
    using old_step unfolding entry_step step_accepted .
  then have new: "accepted child c' strict"
    using in_list.IH wfc in_list.prems(3) by blast
  have "validate_entries (child # others) [c'] strict = Inr None"
    unfolding entry_step step_accepted by (rule new)
  with loop have "validate_entries (child # others) (settings[i := c']) strict = Inr None"
    by (simp only: sum.case option.case)
  with no_min show ?case by (simp add: accepted_list)
qed

lemma reached_accepted:
  assumes "replaced S e e' G x x'"
    and "well_formed S"
    and "accepted S e strict"
  shows "well_formed G \<and> accepted G x strict"
  using assms
proof (induction rule: replaced.induct)
  case (here G x x')
  then show ?case by simp
next
  case (in_group name child children settings c c' G x x' n)
  let ?loc = "uri (SGroup n children)"
  note wf = well_formed_group [OF in_group.prems(1)]
  have plain: "\<not> has_separator name" using wf(4) in_group.hyps(1) .
  have orig: "validate_children ?loc children (Group settings) strict = Inr None"
    using in_group.prems(2) by (simp add: accepted_group)
  have "validate_children ?loc [(name, child)] (Group settings) strict = Inr None"
    using group_loop_changed [OF wf(1) wf(2) in_group.hyps(1) refl orig] by blast
  then have "accepted child c strict"
    unfolding child_step_found [OF plain in_group.hyps(2), of ?loc child strict] step_accepted .
  then show ?case
    using in_group.IH wf(3) in_group.hyps(1) by blast
next
  case (in_list i settings child c' G x x' n others)
  have wfc: "well_formed child" using in_list.prems(1) by simp
  have orig: "validate_entries (child # others) settings strict = Inr None"
    using in_list.prems(2) by (simp add: accepted_list)
  have "validate_entries (child # others) [settings ! i] strict = Inr None"
    using list_loop_changed [OF in_list.hyps(1) orig] by blast
  then have "accepted child (settings ! i) strict"
    unfolding entry_step step_accepted .
  then show ?case
    using in_list.IH wfc by blast
qed

lemma map_of_without:
  "map_of (without key settings) k = (if k = key then None else map_of settings k)"
  by (induction settings) (auto simp: without_def)

lemma missing_required_child:
  assumes wf: "well_formed (SGroup n children)"
    and m: "(name, leaf) \<in> set children"
    and req: "node_required (info leaf)"
    and acc: "accepted (SGroup n children) (Group settings) strict"
  shows "validate (SGroup n children) (Group (without name settings)) strict =
           Inr (failure (uri (SGroup n children))
             (''Missing required attribute '' @ [CHR 0x27] @ name @ [CHR 0x27]))"
proof -
  let ?loc = "uri (SGroup n children)"
  let ?settings' = "without name settings"
  note w = well_formed_group [OF wf]
  have plain: "\<not> has_separator name" using w(4) m .
  have orig: "validate_children ?loc children (Group settings) strict = Inr None"
    using acc by (simp add: accepted_group)
  have loop:
    "validate_children ?loc children (Group ?settings') strict =
       (case validate_children ?loc [(name, leaf)] (Group ?settings') strict of
          Inr None \<Rightarrow> Inr None
        | other \<Rightarrow> other) \<and>
     validate_children ?loc [(name, leaf)] (Group settings) strict = Inr None"
    by (rule group_loop_changed [OF w(1) w(2) m _ orig]) (simp add: map_of_without)
  have gone: "map_of ?settings' name = None"
    by (simp add: map_of_without)
  have "validate_children ?loc [(name, leaf)] (Group ?settings') strict =
      Inr (Some (failure ?loc (''Missing required attribute '' @ [CHR 0x27] @ name @ [CHR 0x27])))"
    unfolding child_step_missing [OF plain gone, of ?loc leaf strict] using req by simp
  with loop have "validate_children ?loc children (Group ?settings') strict =
      Inr (Some (failure ?loc (''Missing required attribute '' @ [CHR 0x27] @ name @ [CHR 0x27])))"
    by (simp only: sum.case option.case)
  then show ?thesis by simp
qed

lemma validate_strict_valid:
  "valid (validate_strict loc children settings) \<longleftrightarrow>
     list_all (\<lambda>key. map_of children key \<noteq> None) (map fst settings)"
  by (induction settings) (auto simp: success_def failure_def split: if_splits)

lemma validate_strict_insort:
  assumes "list_all (\<lambda>k. map_of children k \<noteq> None) (map fst settings)"
    and "map_of children key = None"
  shows "validate_strict loc children (insort_key fst (key, value) settings) =
           failure loc
             (''Attribute '' @ [CHR 0x27] @ key @ [CHR 0x27] @
              '' not found in schema (strict validation). This might possibly be a typo.'')"
  using assms by (induction settings) auto

lemma map_of_insort:
  "map_of settings key = None \<Longrightarrow>
   map_of (insort_key fst (key, value) settings) k =
     (if k = key then Some value else map_of settings k)"
  by (induction settings) auto

lemma undeclared_not_present:
  assumes "list_all (\<lambda>k. map_of children k \<noteq> None) (map fst settings)"
    and "map_of children key = None"
  shows "map_of settings key = None"
proof -
  from assms have "key \<notin> fst ` set settings"
    by (auto simp: list_all_iff)
  then show ?thesis by (simp add: map_of_eq_None_iff)
qed

lemma children_same_after_insert:
  assumes wf: "well_formed (SGroup n children)"
    and undeclared: "map_of children key = None"
  shows "validate_children loc children (Group (group_insert key value settings)) strict =
         validate_children loc children (Group settings) strict"
proof (rule validate_children_same)
  show "list_all (\<lambda>(name, child). \<not> has_separator name) children"
    using well_formed_group(2) [OF wf] .
next
  fix name assume "name \<in> fst ` set children"
  then have "map_of children name \<noteq> None"
    by (simp add: map_of_eq_None_iff)
  with undeclared have "name \<noteq> key" by auto
  then show "map_of (group_insert key value settings) name = map_of settings name"
    by (simp add: group_insert_def map_of_insort)
qed

lemma undeclared_key_strict:
  assumes wf: "well_formed (SGroup n children)"
    and undeclared: "map_of children key = None"
    and acc: "accepted (SGroup n children) (Group settings) True"
  shows "validate (SGroup n children) (Group (group_insert key value settings)) True =
           Inr (failure (uri (SGroup n children))
             (''Attribute '' @ [CHR 0x27] @ key @ [CHR 0x27] @
              '' not found in schema (strict validation). This might possibly be a typo.''))"
proof -
  let ?loc = "uri (SGroup n children)"
  from acc have orig: "validate_children ?loc children (Group settings) True = Inr None"
    and declared: "list_all (\<lambda>k. map_of children k \<noteq> None) (map fst settings)"
    by (simp_all add: accepted_group validate_strict_valid)
  have absent: "map_of settings key = None"
    using declared undeclared by (rule undeclared_not_present)
  have "validate_children ?loc children (Group (group_insert key value settings)) True = Inr None"
    using children_same_after_insert [OF wf undeclared] orig by simp
  moreover have "validate_strict ?loc children (group_insert key value settings) =
      failure ?loc
        (''Attribute '' @ [CHR 0x27] @ key @ [CHR 0x27] @
         '' not found in schema (strict validation). This might possibly be a typo.'')"
    using validate_strict_insort [OF declared undeclared] absent by (simp add: group_insert_def)
  ultimately show ?thesis by simp
qed

lemma undeclared_key_permissive:
  assumes wf: "well_formed (SGroup n children)"
    and undeclared: "map_of children key = None"
    and acc: "accepted (SGroup n children) (Group settings) False"
  shows "accepted (SGroup n children) (Group (group_insert key value settings)) False"
  using acc children_same_after_insert [OF wf undeclared]
  by (simp add: accepted_group)

lemma strict_implies_permissive:
  "accepted S e strict \<longrightarrow> accepted S e False"
  "validate_children loc children e' strict = Inr None \<longrightarrow>
     validate_children loc children e' False = Inr None"
  "validate_entries cs l strict = Inr None \<longrightarrow> validate_entries cs l False = Inr None"
proof (induction S e strict and loc children e' strict and cs l strict
    rule: validate_validate_children_validate_entries.induct)
  case (1 n children e strict)
  show ?case
  proof (cases e)
    case (Group settings)
    with 1 show ?thesis by (simp add: accepted_group)
  next
    case (List l)
    then show ?thesis by (simp add: accepted_def failure_def)
  next
    case (Atom v)
    then show ?thesis by (simp add: accepted_def failure_def)
  qed
next
  case (2 n children e strict)
  show ?case
  proof (cases e)
    case (Group settings)
    then show ?thesis by (simp add: accepted_def failure_def)
  next
    case (List l)
    with 2 show ?thesis by (simp add: accepted_list)
  next
    case (Atom v)
    then show ?thesis by (simp add: accepted_def failure_def)
  qed
next
  case (3 n t e strict)
  show ?case by (simp add: accepted_def)
next
  case (4 loc e strict)
  show ?case by simp
next
  case (5 loc name child children e strict)
  show ?case
  proof
    assume a: "validate_children loc ((name, child) # children) e strict = Inr None"
    show "validate_children loc ((name, child) # children) e False = Inr None"
    proof (cases "subscript_key e name")
      case (Inl err)
      show ?thesis
      proof (cases err)
        case (LookupError msg)
        with Inl a 5 show ?thesis by (simp split: if_splits)
      qed (use Inl a in simp_all)
    next
      case (Inr c)
      from a Inr validate_not_lookup_error [of child c strict]
      obtain r where r: "validate child c strict = Inr r" and v: "valid r"
        and rest: "validate_children loc children e strict = Inr None"
        by (auto split: sum.splits error.splits if_splits)
      from r v have "accepted child c strict" by (simp add: accepted_def)
      with 5(2) [OF Inr] have "accepted child c False" by simp
      then obtain r' where r': "validate child c False = Inr r'" and v': "valid r'"
        by (auto simp: accepted_def split: sum.splits)
      from 5(4) [OF Inr r] v rest have "validate_children loc children e False = Inr None"
        by simp
      with Inr r' v' show ?thesis by simp
    qed
  qed
next
  case (6 cs strict)
  show ?case by simp
next
  case (7 cs x l strict)
  show ?case
  proof
    assume a: "validate_entries cs (x # l) strict = Inr None"
    then obtain child others where cs: "cs = child # others"
      by (cases cs) auto
    from a cs obtain r where r: "validate child x strict = Inr r" and v: "valid r"
      and rest: "validate_entries cs l strict = Inr None"
      by (auto split: sum.splits if_splits)
    from r v have "accepted child x strict" by (simp add: accepted_def)
    with 7(1) [OF cs] have "accepted child x False" by simp
    then obtain r' where r': "validate child x False = Inr r'" and v': "valid r'"
      by (auto simp: accepted_def split: sum.splits)
    from 7(2) [OF cs r] v rest have "validate_entries cs l False = Inr None"
      by simp
    with cs r' v' show "validate_entries cs (x # l) False = Inr None" by simp
  qed
qed

subsection \<open>A missing required leaf\<close>

text \<open>
  C2 (as stated, refuted). The schema root declares the required integer leaf \<open>port\<close>;
  the element tree \<open>port = 80\<close> is valid. Without the leaf, validation fails at the
  location \<open>/\<close>, the uri of the group that misses the entry, not at \<open>/port\<close>, the
  uri of the leaf's schema node.
\<close>

theorem missing_leaf_location_is_group:
  "validate
     (SGroup \<lparr> node_name = [], node_required = True, node_parent = [],
               node_attributes = Map.empty \<rparr>
        [(''port'',
          SAtom \<lparr> node_name = ''port'', node_required = True, node_parent = [([], False)],
                   node_attributes = Map.empty \<rparr> TLong)])
     (Group [(''port'', Atom (VLong 80))]) False =
     Inr \<lparr> valid = True, error_uri = [], error_message = [] \<rparr> \<and>
   validate
     (SGroup \<lparr> node_name = [], node_required = True, node_parent = [],
               node_attributes = Map.empty \<rparr>
        [(''port'',
          SAtom \<lparr> node_name = ''port'', node_required = True, node_parent = [([], False)],
                   node_attributes = Map.empty \<rparr> TLong)])
     (Group []) False =
     Inr \<lparr> valid = False, error_uri = ''/'',
           error_message = ''Missing required attribute '' @ [CHR 0x27] @ ''port'' @ [CHR 0x27] \<rparr> \<and>
   uri (SAtom \<lparr> node_name = ''port'', node_required = True, node_parent = [([], False)],
                node_attributes = Map.empty \<rparr> TLong) = ''/port''"
  by (simp add: subscript_key.simps has_separator_def group_get_def uri_def uri_element_def
      success_def failure_def)

text \<open>
  C2 (amended). Let the schema tree be well formed and let the element tree be valid
  against it. If the entry of a required atom leaf is taken out of a group that
  validation reaches, validation returns \<open>valid = false\<close>, with the location equal to
  the uri of the schema node of that group (the leaf's parent) and the message
  "Missing required attribute" followed by the quoted name of the leaf.
\<close>

theorem missing_required_leaf:
  assumes wf: "well_formed S"
    and ok: "validate S e strict = Inr r0" "valid r0"
    and rep: "replaced S e e' (SGroup n children) (Group settings) (Group (without name settings))"
    and leaf: "(name, SAtom a t) \<in> set children"
    and req: "node_required a"
  shows "validate S e' strict =
           Inr \<lparr> valid = False, error_uri = uri (SGroup n children),
                 error_message =
                   ''Missing required attribute '' @ [CHR 0x27] @ name @ [CHR 0x27] \<rparr>"
proof -
  from ok have acc: "accepted S e strict"
    by (simp add: accepted_def)
  from reached_accepted [OF rep wf acc]
  have wfg: "well_formed (SGroup n children)"
    and accg: "accepted (SGroup n children) (Group settings) strict"
    by blast+
  from req have "node_required (info (SAtom a t))" by simp
  from missing_required_child [OF wfg leaf this accg]
  have fails: "validate (SGroup n children) (Group (without name settings)) strict =
      Inr (failure (uri (SGroup n children))
        (''Missing required attribute '' @ [CHR 0x27] @ name @ [CHR 0x27]))" .
  have "\<not> valid (failure (uri (SGroup n children))
      (''Missing required attribute '' @ [CHR 0x27] @ name @ [CHR 0x27]))"
    by (simp add: failure_def)
  from rejection_propagates [OF rep wf acc fails this] show ?thesis
    by (simp add: failure_def)
qed

theorem missing_required_leaf_witness:
  "validate
     (SGroup \<lparr> node_name = [], node_required = True, node_parent = [],
               node_attributes = Map.empty \<rparr>
        [(''server'',
          SGroup \<lparr> node_name = ''server'', node_required = True, node_parent = [([], False)],
                    node_attributes = Map.empty \<rparr>
            [(''port'',
              SAtom \<lparr> node_name = ''port'', node_required = True,
                       node_parent = [(''server'', False), ([], False)],
                       node_attributes = Map.empty \<rparr> TLong)])])
     (Group [(''server'', Group [])]) True =
     Inr \<lparr> valid = False, error_uri = ''/server'',
           error_message = ''Missing required attribute '' @ [CHR 0x27] @ ''port'' @ [CHR 0x27] \<rparr>"
proof -
  let ?leaf = "SAtom \<lparr> node_name = ''port'', node_required = True,
      node_parent = [(''server'', False), ([], False)], node_attributes = Map.empty \<rparr> TLong"
  let ?gn = "\<lparr> node_name = ''server'', node_required = True, node_parent = [([], False)],
      node_attributes = Map.empty \<rparr>"
  let ?G = "SGroup ?gn [(''port'', ?leaf)]"
  let ?rn = "\<lparr> node_name = [], node_required = True, node_parent = [],
      node_attributes = Map.empty \<rparr>"
  let ?S = "SGroup ?rn [(''server'', ?G)]"
  let ?x = "Group [(''port'', Atom (VLong 80))]"
  let ?x' = "Group (without ''port'' [(''port'', Atom (VLong 80))])"
  let ?e = "Group [(''server'', ?x)]"
  have wf: "well_formed ?S"
    by (simp add: has_separator_def)
  have ok: "validate ?S ?e True = Inr success" "valid success"
    by (simp_all add: subscript_key.simps has_separator_def group_get_def success_def)
  have "replaced ?S ?e (Group (with_value ''server'' ?x' [(''server'', ?x)])) ?G ?x ?x'"
    by (rule replaced.in_group [OF _ _ replaced.here]) simp_all
  then have rep: "replaced ?S ?e (Group [(''server'', ?x')]) ?G ?x ?x'"
    by (simp add: with_value_def)
  have leaf: "(''port'', ?leaf) \<in> set [(''port'', ?leaf)]"
    by simp
  from missing_required_leaf [OF wf ok rep leaf] show ?thesis
    by (simp add: without_def uri_def uri_element_def)
qed

subsection \<open>An undeclared key\<close>

text \<open>
  C9. Let the schema tree be well formed and let the element tree be valid against it
  under strict validation. If a key that the group's schema does not declare is
  inserted into a group that validation reaches, strict validation of the new tree
  returns \<open>valid = false\<close> at that group with the message "Attribute 'key' not found in
  schema (strict validation). This might possibly be a typo.", and validation of the
  new tree with \<open>strict = false\<close> returns \<open>valid = true\<close>.
\<close>

theorem undeclared_key:
  assumes wf: "well_formed S"
    and ok: "validate S e True = Inr r0" "valid r0"
    and rep: "replaced S e e' (SGroup n children) (Group settings)
                (Group (group_insert key value settings))"
    and undeclared: "map_of children key = None"
  shows "validate S e' True =
           Inr \<lparr> valid = False, error_uri = uri (SGroup n children),
                 error_message =
                   ''Attribute '' @ [CHR 0x27] @ key @ [CHR 0x27] @
                   '' not found in schema (strict validation). This might possibly be a typo.'' \<rparr> \<and>
         (\<exists>r. validate S e' False = Inr r \<and> valid r)"
proof -
  let ?G = "SGroup n children"
  let ?message = "''Attribute '' @ [CHR 0x27] @ key @ [CHR 0x27] @
      '' not found in schema (strict validation). This might possibly be a typo.''"
  from ok have acc: "accepted S e True"
    by (simp add: accepted_def)
  from reached_accepted [OF rep wf acc]
  have wfg: "well_formed ?G" and accg: "accepted ?G (Group settings) True"
    by blast+
  from undeclared_key_strict [OF wfg undeclared accg]
  have fails: "validate ?G (Group (group_insert key value settings)) True =
      Inr (failure (uri ?G) ?message)" .
  have "\<not> valid (failure (uri ?G) ?message)"
    by (simp add: failure_def)
  from rejection_propagates [OF rep wf acc fails this]
  have strict: "validate S e' True = Inr (failure (uri ?G) ?message)" .
  from acc have acc': "accepted S e False"
    using strict_implies_permissive(1) [of S e True] by simp
  from reached_accepted [OF rep wf acc']
  have "accepted ?G (Group settings) False"
    by blast
  from undeclared_key_permissive [OF wfg undeclared this]
  have "accepted ?G (Group (group_insert key value settings)) False" .
  from acceptance_preserved [OF rep wf acc' this]
  have "accepted S e' False" .
  then have "\<exists>r. validate S e' False = Inr r \<and> valid r"
    by (auto simp: accepted_def split: sum.splits)
  with strict show ?thesis
    by (simp add: failure_def)
qed

theorem undeclared_key_witness:
  "validate
     (SGroup \<lparr> node_name = [], node_required = True, node_parent = [],
               node_attributes = Map.empty \<rparr>
        [(''server'',
          SGroup \<lparr> node_name = ''server'', node_required = True, node_parent = [([], False)],
                    node_attributes = Map.empty \<rparr>
            [(''port'',
              SAtom \<lparr> node_name = ''port'', node_required = True,
                       node_parent = [(''server'', False), ([], False)],
                       node_attributes = Map.empty \<rparr> TLong)])])
     (Group [(''server'', Group [(''port'', Atom (VLong 80)), (''prot'', Atom (VLong 81))])])
     True =
     Inr \<lparr> valid = False, error_uri = ''/server'',
           error_message =
             ''Attribute '' @ [CHR 0x27] @ ''prot'' @ [CHR 0x27] @
             '' not found in schema (strict validation). This might possibly be a typo.'' \<rparr> \<and>
   (\<exists>r. validate
      (SGroup \<lparr> node_name = [], node_required = True, node_parent = [],
                node_attributes = Map.empty \<rparr>
         [(''server'',
           SGroup \<lparr> node_name = ''server'', node_required = True, node_parent = [([], False)],
                     node_attributes = Map.empty \<rparr>
             [(''port'',
               SAtom \<lparr> node_name = ''port'', node_required = True,
                        node_parent = [(''server'', False), ([], False)],
                        node_attributes = Map.empty \<rparr> TLong)])])
      (Group [(''server'', Group [(''port'', Atom (VLong 80)), (''prot'', Atom (VLong 81))])])
      False = Inr r \<and> valid r)"
proof -
  let ?leaf = "SAtom \<lparr> node_name = ''port'', node_required = True,
      node_parent = [(''server'', False), ([], False)], node_attributes = Map.empty \<rparr> TLong"
  let ?gn = "\<lparr> node_name = ''server'', node_required = True, node_parent = [([], False)],
      node_attributes = Map.empty \<rparr>"
  let ?G = "SGroup ?gn [(''port'', ?leaf)]"
  let ?rn = "\<lparr> node_name = [], node_required = True, node_parent = [],
      node_attributes = Map.empty \<rparr>"
  let ?S = "SGroup ?rn [(''server'', ?G)]"
  let ?x = "Group [(''port'', Atom (VLong 80))]"
  let ?x' = "Group (group_insert ''prot'' (Atom (VLong 81)) [(''port'', Atom (VLong 80))])"
  let ?e = "Group [(''server'', ?x)]"
  have wf: "well_formed ?S"
    by (simp add: has_separator_def)
  have ok: "validate ?S ?e True = Inr success" "valid success"
    by (simp_all add: subscript_key.simps has_separator_def group_get_def success_def)
  have "replaced ?S ?e (Group (with_value ''server'' ?x' [(''server'', ?x)])) ?G ?x ?x'"
    by (rule replaced.in_group [OF _ _ replaced.here]) simp_all
  then have rep: "replaced ?S ?e (Group [(''server'', ?x')]) ?G ?x ?x'"
    by (simp add: with_value_def)
  have undeclared: "map_of [(''port'', ?leaf)] ''prot'' = None"
    by simp
  have ins: "group_insert ''prot'' (Atom (VLong 81)) [(''port'', Atom (VLong 80))] =
      [(''port'', Atom (VLong 80)), (''prot'', Atom (VLong 81))]"
    by (simp add: group_insert_def less_eq_char_def less_char_def)
  from undeclared_key [OF wf ok rep undeclared] show ?thesis
    unfolding ins by (simp add: uri_def uri_element_def)
qed

subsection \<open>Propagation of the required flag\<close>

lemma add_child_group:
  assumes "add_child g name n r h = Some h'"
  obtains children where "obj_variant (h g) = GroupNode children"
  using assms by (cases "obj_variant (h g)") (simp_all add: add_child_def)

lemma add_child_flags:
  assumes "add_child g name n r h = Some h'"
  shows "(r \<or> obj_required (h n) \<longrightarrow> obj_required (h' n) \<and> obj_required (h' g)) \<and>
         (\<not> r \<and> \<not> obj_required (h n) \<longrightarrow>
            (obj_required (h' n) \<longleftrightarrow> obj_required (h n)) \<and>
            (obj_required (h' g) \<longleftrightarrow> obj_required (h g)))"
proof -
  from assms obtain children where v: "obj_variant (h g) = GroupNode children"
    by (rule add_child_group)
  show ?thesis
  proof (cases "g = n")
    case True
    with assms v show ?thesis
      by (cases "r \<or> obj_required (h n)") (auto simp: add_child_def Let_def)
  next
    case False
    with assms v show ?thesis
      by (cases "r \<or> obj_required (h n)") (auto simp: add_child_def Let_def)
  qed
qed

lemma add_child_result:
  assumes a: "add_child g name n r h = Some h'" and ne: "g \<noteq> n"
    and v: "obj_variant (h g) = GroupNode children"
  shows "obj_variant (h' g) =
           GroupNode (if children name = None then children(name \<mapsto> n) else children)"
    and "obj_required (h' g) \<longleftrightarrow> obj_required (h g) \<or> r \<or> obj_required (h n)"
    and "obj_variant (h' n) = obj_variant (h n)"
    and "obj_parent (h' n) = Some g"
    and "obj_required (h' n) \<longleftrightarrow> r \<or> obj_required (h n)"
    and "\<And>a. a \<noteq> g \<Longrightarrow> a \<noteq> n \<Longrightarrow> h' a = h a"
  using a ne v
  by (cases "r \<or> obj_required (h n)"; auto simp: add_child_def Let_def)+

lemma list_add_child_result:
  assumes "list_add_child l n h = Some h'"
  shows "obj_required (h' a) = obj_required (h a)"
    and "obj_parent (h a) \<noteq> None \<Longrightarrow> obj_parent (h' a) \<noteq> None"
    and "obj_variant (h' a) = GroupNode children \<longleftrightarrow> obj_variant (h a) = GroupNode children"
proof -
  from assms obtain cs where v: "obj_variant (h l) = ListNode cs"
    by (cases "obj_variant (h l)") (simp_all add: list_add_child_def)
  with assms have h': "h' = (h(l := (h l)\<lparr> obj_variant := ListNode (cs @ [n]) \<rparr>))
      (n := ((h(l := (h l)\<lparr> obj_variant := ListNode (cs @ [n]) \<rparr>)) n)\<lparr> obj_parent := Some l \<rparr>)"
    by (simp add: list_add_child_def Let_def)
  show "obj_required (h' a) = obj_required (h a)"
    unfolding h' by simp
  show "obj_parent (h a) \<noteq> None \<Longrightarrow> obj_parent (h' a) \<noteq> None"
    unfolding h' by auto
  show "obj_variant (h' a) = GroupNode children \<longleftrightarrow> obj_variant (h a) = GroupNode children"
    unfolding h' using v by auto
qed

lemma add_child_propagated:
  assumes inv: "propagated h"
    and pg: "obj_parent (h g) = None"
    and pn: "obj_parent (h n) = None"
    and ne: "g \<noteq> n"
    and a: "add_child g name n r h = Some h'"
  shows "propagated h'"
  unfolding propagated_def
proof (intro allI impI)
  fix g0 cs0 name0 c
  assume v0: "obj_variant (h' g0) = GroupNode cs0" and c0: "cs0 name0 = Some c"
  from a obtain children where v: "obj_variant (h g) = GroupNode children"
    by (rule add_child_group)
  note res = add_child_result [OF a ne v]
  have old: "\<And>g1 cs1 name1 c1. obj_variant (h g1) = GroupNode cs1 \<Longrightarrow> cs1 name1 = Some c1 \<Longrightarrow>
      obj_parent (h c1) \<noteq> None \<and> (obj_required (h c1) \<longrightarrow> obj_required (h g1))"
    using inv unfolding propagated_def by blast
  have mono: "\<And>a. obj_required (h a) \<Longrightarrow> obj_required (h' a)"
  proof -
    fix a assume r: "obj_required (h a)"
    show "obj_required (h' a)"
    proof (cases "a = g")
      case True
      with r res(2) show ?thesis by simp
    next
      case False
      show ?thesis
      proof (cases "a = n")
        case True
        with r res(5) show ?thesis by simp
      next
        case False
        with \<open>a \<noteq> g\<close> r res(6) [of a] show ?thesis by simp
      qed
    qed
  qed
  have kept: "\<And>c1. obj_parent (h c1) \<noteq> None \<Longrightarrow> h' c1 = h c1"
  proof -
    fix c1 assume "obj_parent (h c1) \<noteq> None"
    with pg pn have "c1 \<noteq> g" and "c1 \<noteq> n" by auto
    then show "h' c1 = h c1" by (rule res(6))
  qed
  show "obj_parent (h' c) \<noteq> None \<and> (obj_required (h' c) \<longrightarrow> obj_required (h' g0))"
  proof (cases "c = n")
    case True
    show ?thesis
    proof (cases "g0 = g")
      case True
      with \<open>c = n\<close> res(2,4,5) show ?thesis by simp
    next
      case False
      have "obj_variant (h g0) = GroupNode cs0"
      proof (cases "g0 = n")
        case True
        with v0 res(3) show ?thesis by simp
      next
        case False
        with \<open>g0 \<noteq> g\<close> v0 res(6) [of g0] show ?thesis by simp
      qed
      from old [OF this c0] \<open>c = n\<close> pn show ?thesis by simp
    qed
  next
    case False
    have in_old: "\<exists>cs1. obj_variant (h g0) = GroupNode cs1 \<and> cs1 name0 = Some c"
    proof (cases "g0 = g")
      case True
      with v0 c0 res(1) False v show ?thesis
        by (auto split: if_splits)
    next
      case False
      show ?thesis
      proof (cases "g0 = n")
        case True
        with v0 c0 res(3) show ?thesis by simp
      next
        case False
        with \<open>g0 \<noteq> g\<close> v0 c0 res(6) [of g0] show ?thesis by simp
      qed
    qed
    then obtain cs1 where "obj_variant (h g0) = GroupNode cs1" and "cs1 name0 = Some c"
      by blast
    from old [OF this] have p: "obj_parent (h c) \<noteq> None"
      and q: "obj_required (h c) \<longrightarrow> obj_required (h g0)"
      by simp_all
    from kept [OF p] have same: "h' c = h c" .
    with p q mono [of g0] show ?thesis by auto
  qed
qed

lemma list_add_child_propagated:
  assumes inv: "propagated h" and a: "list_add_child l n h = Some h'"
  shows "propagated h'"
  using inv unfolding propagated_def
  by (metis list_add_child_result [OF a])

lemma fresh_propagated: "fresh h \<Longrightarrow> propagated h"
  unfolding fresh_def propagated_def
proof (intro allI impI)
  fix g children name c
  assume f: "\<forall>a. \<not> obj_required (h a) \<and> obj_parent (h a) = None \<and>
      (case obj_variant (h a) of
         GroupNode children \<Rightarrow> children = Map.empty
       | ListNode children \<Rightarrow> children = []
       | AtomNode t \<Rightarrow> True)"
    and v: "obj_variant (h g) = GroupNode children" and c: "children name = Some c"
  from f have "case obj_variant (h g) of
         GroupNode children \<Rightarrow> children = Map.empty
       | ListNode children \<Rightarrow> children = []
       | AtomNode t \<Rightarrow> True" by blast
  with v have "children = Map.empty" by simp
  with c show "obj_parent (h c) \<noteq> None \<and> (obj_required (h c) \<longrightarrow> obj_required (h g))"
    by simp
qed

lemma build_propagated:
  "propagated h \<Longrightarrow> bottom_up calls h \<Longrightarrow> build calls h = Some h' \<Longrightarrow> propagated h'"
proof (induction calls arbitrary: h)
  case Nil
  then show ?case by simp
next
  case (Cons call calls)
  show ?case
  proof (cases call)
    case (AddChild g name n r)
    with Cons.prems obtain h1 where
      step: "add_child g name n r h = Some h1"
      and order: "obj_parent (h g) = None" "obj_parent (h n) = None" "g \<noteq> n"
      and rest: "bottom_up calls h1" "build calls h1 = Some h'"
      by (auto split: option.splits)
    from add_child_propagated [OF Cons.prems(1) order step] have "propagated h1" .
    from Cons.IH [OF this rest] show ?thesis .
  next
    case (ListAddChild l n)
    with Cons.prems obtain h1 where
      step: "list_add_child l n h = Some h1"
      and rest: "bottom_up calls h1" "build calls h1 = Some h'"
      by (auto split: option.splits)
    from list_add_child_propagated [OF Cons.prems(1) step] have "propagated h1" .
    from Cons.IH [OF this rest] show ?thesis .
  qed
qed

lemma propagated_descendant:
  "group_descendant h g d \<Longrightarrow> propagated h \<Longrightarrow> obj_required (h d) \<Longrightarrow> obj_required (h g)"
proof (induction rule: group_descendant.induct)
  case (child h g children name c)
  then show ?case unfolding propagated_def by blast
next
  case (deeper h g children name c d)
  from deeper.IH [OF deeper.prems] have "obj_required (h c)" .
  with deeper.hyps(1,2) deeper.prems(1) show ?case
    unfolding propagated_def by blast
qed

text \<open>
  C6 (as stated, refuted). Three new nodes: the groups 0 and 1 and the atom 2. Group 1
  is attached to group 0 first, and the atom is attached to group 1 as required
  afterwards: the atom and group 1 are marked required, but group 0, which has the
  required atom as a descendant through group edges, is not.
\<close>

theorem top_down_build_not_propagated:
  "fresh
     ((\<lambda>a. \<lparr> obj_name = [], obj_required = False, obj_parent = None,
               obj_attributes = Map.empty, obj_variant = GroupNode Map.empty \<rparr>)
      (2 := \<lparr> obj_name = [], obj_required = False, obj_parent = None,
               obj_attributes = Map.empty, obj_variant = AtomNode TLong \<rparr>)) \<and>
   (\<exists>h. build [AddChild 0 ''g'' 1 False, AddChild 1 ''n'' 2 True]
          ((\<lambda>a. \<lparr> obj_name = [], obj_required = False, obj_parent = None,
                    obj_attributes = Map.empty, obj_variant = GroupNode Map.empty \<rparr>)
           (2 := \<lparr> obj_name = [], obj_required = False, obj_parent = None,
                    obj_attributes = Map.empty, obj_variant = AtomNode TLong \<rparr>)) = Some h \<and>
        group_descendant h 0 2 \<and> obj_required (h 2) \<and> \<not> obj_required (h 0))"
proof -
  let ?h0 = "(\<lambda>a. \<lparr> obj_name = [], obj_required = False, obj_parent = None,
               obj_attributes = Map.empty, obj_variant = GroupNode Map.empty \<rparr>)
      (2 := \<lparr> obj_name = [], obj_required = False, obj_parent = None,
               obj_attributes = Map.empty, obj_variant = AtomNode TLong \<rparr>)"
  have f: "fresh ?h0"
    by (simp add: fresh_def)
  have "\<exists>h. build [AddChild 0 ''g'' 1 False, AddChild 1 ''n'' 2 True] ?h0 = Some h \<and>
      obj_variant (h 0) = GroupNode [''g'' \<mapsto> 1] \<and>
      obj_variant (h 1) = GroupNode [''n'' \<mapsto> 2] \<and>
      obj_required (h 2) \<and> \<not> obj_required (h 0)"
    by (simp add: add_child_def Let_def)
  then obtain h where b: "build [AddChild 0 ''g'' 1 False, AddChild 1 ''n'' 2 True] ?h0 = Some h"
    and v0: "obj_variant (h 0) = GroupNode [''g'' \<mapsto> 1]"
    and v1: "obj_variant (h 1) = GroupNode [''n'' \<mapsto> 2]"
    and r: "obj_required (h 2)" "\<not> obj_required (h 0)"
    by blast
  have "group_descendant h 1 2"
    using group_descendant.child [of h 1 "[''n'' \<mapsto> 2]" "''n''" 2] v1 by simp
  then have "group_descendant h 0 2"
    using group_descendant.deeper [of h 0 "[''g'' \<mapsto> 1]" "''g''" 1 2] v0 by simp
  with f b r show ?thesis by blast
qed

text \<open>
  C6 (amended). After \<open>add_child(name, n, r)\<close> on a group \<open>g\<close>: if \<open>r\<close> is true or \<open>n\<close>
  was already required, both \<open>n\<close> and \<open>g\<close> are required afterwards; otherwise neither
  flag is changed. Consequently, in every schema tree built from new nodes by a sequence
  of \<open>add_child\<close> calls in bottom-up order (a group receives a child while neither of
  them has a parent yet, as the parser and the generated tree builder proceed), any
  group with a required descendant attached through group edges is itself required.
\<close>

theorem required_propagation:
  "(add_child g name n r h = Some h' \<longrightarrow>
      (r \<or> obj_required (h n) \<longrightarrow> obj_required (h' n) \<and> obj_required (h' g)) \<and>
      (\<not> r \<and> \<not> obj_required (h n) \<longrightarrow>
         (obj_required (h' n) \<longleftrightarrow> obj_required (h n)) \<and>
         (obj_required (h' g) \<longleftrightarrow> obj_required (h g)))) \<and>
   (fresh start \<and> bottom_up calls start \<and> build calls start = Some final \<and>
    group_descendant final a d \<and> obj_required (final d) \<longrightarrow> obj_required (final a))"
proof -
  have flags: "add_child g name n r h = Some h' \<longrightarrow>
      (r \<or> obj_required (h n) \<longrightarrow> obj_required (h' n) \<and> obj_required (h' g)) \<and>
      (\<not> r \<and> \<not> obj_required (h n) \<longrightarrow>
         (obj_required (h' n) \<longleftrightarrow> obj_required (h n)) \<and>
         (obj_required (h' g) \<longleftrightarrow> obj_required (h g)))"
    using add_child_flags [of g name n r h h'] by blast
  have tree: "fresh start \<and> bottom_up calls start \<and> build calls start = Some final \<and>
      group_descendant final a d \<and> obj_required (final d) \<longrightarrow> obj_required (final a)"
  proof (rule impI)
    assume a: "fresh start \<and> bottom_up calls start \<and> build calls start = Some final \<and>
        group_descendant final a d \<and> obj_required (final d)"
    then have "propagated start"
      by (simp add: fresh_propagated)
    with a have "propagated final"
      using build_propagated [of start calls final] by blast
    with a show "obj_required (final a)"
      using propagated_descendant [of final a d] by blast
  qed
  from flags tree show ?thesis by (rule conjI)
qed

theorem required_propagation_witness:
  "fresh
     ((\<lambda>a. \<lparr> obj_name = [], obj_required = False, obj_parent = None,
               obj_attributes = Map.empty, obj_variant = GroupNode Map.empty \<rparr>)
      (2 := \<lparr> obj_name = [], obj_required = False, obj_parent = None,
               obj_attributes = Map.empty, obj_variant = AtomNode TLong \<rparr>)) \<and>
   (\<exists>h'. add_child 1 ''n'' 2 True
          ((\<lambda>a. \<lparr> obj_name = [], obj_required = False, obj_parent = None,
                    obj_attributes = Map.empty, obj_variant = GroupNode Map.empty \<rparr>)
           (2 := \<lparr> obj_name = [], obj_required = False, obj_parent = None,
                    obj_attributes = Map.empty, obj_variant = AtomNode TLong \<rparr>)) = Some h' \<and>
        obj_required (h' 2) \<and> obj_required (h' 1)) \<and>
   bottom_up [AddChild 1 ''n'' 2 True, AddChild 0 ''g'' 1 False]
     ((\<lambda>a. \<lparr> obj_name = [], obj_required = False, obj_parent = None,
               obj_attributes = Map.empty, obj_variant = GroupNode Map.empty \<rparr>)
      (2 := \<lparr> obj_name = [], obj_required = False, obj_parent = None,
               obj_attributes = Map.empty, obj_variant = AtomNode TLong \<rparr>)) \<and>
   (\<exists>h. build [AddChild 1 ''n'' 2 True, AddChild 0 ''g'' 1 False]
          ((\<lambda>a. \<lparr> obj_name = [], obj_required = False, obj_parent = None,
                    obj_attributes = Map.empty, obj_variant = GroupNode Map.empty \<rparr>)
           (2 := \<lparr> obj_name = [], obj_required = False, obj_parent = None,
                    obj_attributes = Map.empty, obj_variant = AtomNode TLong \<rparr>)) = Some h \<and>
        group_descendant h 0 2 \<and> obj_required (h 2) \<and> obj_required (h 0))"
proof -
  let ?h0 = "(\<lambda>a. \<lparr> obj_name = [], obj_required = False, obj_parent = None,
               obj_attributes = Map.empty, obj_variant = GroupNode Map.empty \<rparr>)
      (2 := \<lparr> obj_name = [], obj_required = False, obj_parent = None,
               obj_attributes = Map.empty, obj_variant = AtomNode TLong \<rparr>)"
  let ?calls = "[AddChild 1 ''n'' 2 True, AddChild 0 ''g'' 1 False]"
  have f: "fresh ?h0"
    by (simp add: fresh_def)
  have "\<exists>h'. add_child 1 ''n'' 2 True ?h0 = Some h'"
    by (simp add: add_child_def Let_def)
  then obtain h' where s: "add_child 1 ''n'' 2 True ?h0 = Some h'" ..
  have o: "bottom_up ?calls ?h0"
    by (simp add: add_child_def Let_def)
  have "\<exists>h. build ?calls ?h0 = Some h \<and>
      obj_variant (h 0) = GroupNode [''g'' \<mapsto> 1] \<and>
      obj_variant (h 1) = GroupNode [''n'' \<mapsto> 2] \<and> obj_required (h 2)"
    by (simp add: add_child_def Let_def)
  then obtain h where b: "build ?calls ?h0 = Some h"
    and v0: "obj_variant (h 0) = GroupNode [''g'' \<mapsto> 1]"
    and v1: "obj_variant (h 1) = GroupNode [''n'' \<mapsto> 2]"
    and r: "obj_required (h 2)"
    by blast
  have "group_descendant h 1 2"
    using group_descendant.child [of h 1 "[''n'' \<mapsto> 2]" "''n''" 2] v1 by simp
  then have d: "group_descendant h 0 2"
    using group_descendant.deeper [of h 0 "[''g'' \<mapsto> 1]" "''g''" 1 2] v0 by simp
  from required_propagation [of 1 "''n''" 2 True ?h0 h' ?h0 ?calls h 0 2] s f o b d r
  have "obj_required (h' 2) \<and> obj_required (h' 1)" and "obj_required (h 0)"
    by blast+
  with f s o b d r show ?thesis by blast
qed

end
